theory Spec2Isabelle
  imports Main
begin

section \<open>JavaScript strings and arrays\<close>

text \<open>
  A JavaScript string is modelled as a \<^typ>\<open>string\<close>: one \<^typ>\<open>char\<close> per code unit,
  for texts whose code units are below 256. The character classes of the regular
  expressions are the ECMAScript ones restricted to that range.
\<close>

abbreviation NL :: char where "NL \<equiv> CHR 0x0A"
abbreviation CR :: char where "CR \<equiv> CHR 0x0D"
abbreviation TAB :: char where "TAB \<equiv> CHR 0x09"

definition is_digit :: "char \<Rightarrow> bool" where
  "is_digit c = (c \<in> set ''0123456789'')"

definition is_lower_alnum :: "char \<Rightarrow> bool" where
  "is_lower_alnum c = (c \<in> set ''abcdefghijklmnopqrstuvwxyz0123456789'')"

definition is_word :: "char \<Rightarrow> bool" where
  "is_word c = (c \<in> set ''abcdefghijklmnopqrstuvwxyzABCDEFGHIJKLMNOPQRSTUVWXYZ0123456789_'')"

definition is_line_terminator :: "char \<Rightarrow> bool" where
  "is_line_terminator c = (c = NL \<or> c = CR)"

text \<open>\<open>\s\<close>: tab, line feed, vertical tab, form feed, carriage return, space, no-break space.\<close>

definition is_space :: "char \<Rightarrow> bool" where
  "is_space c = (c \<in> {TAB, NL, CHR 0x0B, CHR 0x0C, CR, CHR '' '', CHR 0xA0})"

text \<open>
  \<open>Array.prototype.slice\<close> and \<open>String.prototype.slice\<close>: an absent bound is
  \<open>None\<close>; a negative bound counts from the end; both are clamped to the length.
\<close>

definition rel_index :: "nat \<Rightarrow> int \<Rightarrow> nat" where
  "rel_index len i = (if i < 0 then nat (max (int len + i) 0) else min (nat i) len)"

definition js_slice :: "'a list \<Rightarrow> int option \<Rightarrow> int option \<Rightarrow> 'a list" where
  "js_slice xs start fin =
     (let len = length xs;
          k = (case start of None \<Rightarrow> 0 | Some i \<Rightarrow> rel_index len i);
          final = (case fin of None \<Rightarrow> len | Some j \<Rightarrow> rel_index len j)
      in take (final - k) (drop k xs))"

text \<open>\<open>String.prototype.split\<close> with a one-character separator.\<close>

fun js_split :: "char \<Rightarrow> string \<Rightarrow> string list" where
  "js_split d [] = [[]]"
| "js_split d (c # cs) =
     (if c = d then [] # js_split d cs
      else (case js_split d cs of l # ls \<Rightarrow> (c # l) # ls | [] \<Rightarrow> [[c]]))"

text \<open>\<open>split(/\r?\n/)\<close>: the separator is a line feed with an optional carriage return before it.\<close>

fun split_lines :: "string \<Rightarrow> string list" where
  "split_lines [] = [[]]"
| "split_lines (c # cs) =
     (if c = NL then [] # split_lines cs
      else if c = CR \<and> cs \<noteq> [] \<and> hd cs = NL then [] # split_lines (tl cs)
      else (case split_lines cs of l # ls \<Rightarrow> (c # l) # ls | [] \<Rightarrow> [[c]]))"

text \<open>\<open>replace(/\r\n/g, '\n')\<close>.\<close>

fun replace_crlf :: "string \<Rightarrow> string" where
  "replace_crlf [] = []"
| "replace_crlf (c # cs) =
     (if c = CR \<and> cs \<noteq> [] \<and> hd cs = NL then NL # replace_crlf (tl cs)
      else c # replace_crlf cs)"

text \<open>\<open>Array.prototype.join\<close>.\<close>

fun js_join :: "string \<Rightarrow> string list \<Rightarrow> string" where
  "js_join sep [] = []"
| "js_join sep [l] = l"
| "js_join sep (l # ls) = l @ sep @ js_join sep ls"

text \<open>\<open>String.prototype.trim\<close>.\<close>

definition js_trim :: "string \<Rightarrow> string" where
  "js_trim s = rev (dropWhile is_space (rev (dropWhile is_space s)))"

text \<open>
  \<open>parseInt\<close> on the decimal digits a string starts with; \<open>None\<close> is NaN. The callers
  pass captures of \<open>\d*\<close> only, so sign and leading blanks are left out. Numbers are
  unbounded integers: the rounding of a double above \<open>2^53\<close> cannot change a slice
  of an array, whose length is below \<open>2^32\<close>.
\<close>

definition digit_val :: "char \<Rightarrow> int" where
  "digit_val c = int (of_char c) - 48"

definition parseInt :: "string \<Rightarrow> int option" where
  "parseInt s =
     (case takeWhile is_digit s of
        [] \<Rightarrow> None
      | ds \<Rightarrow> Some (foldl (\<lambda>a c. 10 * a + digit_val c) 0 ds))"

text \<open>An index argument that is NaN counts as 0.\<close>

definition to_index :: "int option \<Rightarrow> int" where
  "to_index v = (case v of None \<Rightarrow> 0 | Some i \<Rightarrow> i)"

section \<open>Regular expressions\<close>

text \<open>
  The patterns of the source are values of \<open>regex\<close>, and \<open>ms\<close> is the backtracking
  matcher of ECMAScript: from a state it returns every way the pattern can match there,
  in the order backtracking tries them, so the head of the list is the match found.
  A state is the reversed text before the position, the text from the position on, and
  the captures. An iteration of \<open>*\<close> or \<open>?\<close> that matches the empty string is rejected,
  as in ECMAScript. No pattern of the source has a group under \<open>*\<close>, so captures need
  no reset between iterations.
\<close>

datatype regex =
    Eps
  | Cls "char \<Rightarrow> bool"
  | Str string
  | Bol
  | Eol
  | BolM
  | EolM
  | WordB
  | Seq regex regex
  | Alt regex regex
  | Opt regex
  | Star regex
  | StarLazy regex
  | Grp nat regex

type_synonym mstate = "string \<times> string \<times> (nat \<Rightarrow> string option)"

definition progress :: "mstate \<Rightarrow> mstate \<Rightarrow> bool" where
  "progress s s' = (length (fst (snd s')) < length (fst (snd s)))"

fun star :: "nat \<Rightarrow> (mstate \<Rightarrow> mstate list) \<Rightarrow> mstate \<Rightarrow> mstate list" where
  "star 0 f s = [s]"
| "star (Suc n) f s = concat (map (star n f) (filter (progress s) (f s))) @ [s]"

fun star_lazy :: "nat \<Rightarrow> (mstate \<Rightarrow> mstate list) \<Rightarrow> mstate \<Rightarrow> mstate list" where
  "star_lazy 0 f s = [s]"
| "star_lazy (Suc n) f s = s # concat (map (star_lazy n f) (filter (progress s) (f s)))"

definition set_group :: "nat \<Rightarrow> string \<Rightarrow> mstate \<Rightarrow> mstate" where
  "set_group n rest s =
     (case s of (pre', rest', caps') \<Rightarrow>
        (pre', rest', caps'(n \<mapsto> take (length rest - length rest') rest)))"

primrec ms :: "regex \<Rightarrow> mstate \<Rightarrow> mstate list" where
  "ms Eps = (\<lambda>s. [s])"
| "ms (Cls p) = (\<lambda>(pre, rest, caps).
     (case rest of [] \<Rightarrow> [] | c # cs \<Rightarrow> if p c then [(c # pre, cs, caps)] else []))"
| "ms (Str w) = (\<lambda>(pre, rest, caps).
     if take (length w) rest = w then [(rev w @ pre, drop (length w) rest, caps)] else [])"
| "ms Bol = (\<lambda>(pre, rest, caps). if pre = [] then [(pre, rest, caps)] else [])"
| "ms Eol = (\<lambda>(pre, rest, caps). if rest = [] then [(pre, rest, caps)] else [])"
| "ms BolM = (\<lambda>(pre, rest, caps).
     if pre = [] \<or> is_line_terminator (hd pre) then [(pre, rest, caps)] else [])"
| "ms EolM = (\<lambda>(pre, rest, caps).
     if rest = [] \<or> is_line_terminator (hd rest) then [(pre, rest, caps)] else [])"
| "ms WordB = (\<lambda>(pre, rest, caps).
     if (pre \<noteq> [] \<and> is_word (hd pre)) \<noteq> (rest \<noteq> [] \<and> is_word (hd rest))
     then [(pre, rest, caps)] else [])"
| "ms (Seq a b) = (\<lambda>s. concat (map (ms b) (ms a s)))"
| "ms (Alt a b) = (\<lambda>s. ms a s @ ms b s)"
| "ms (Opt a) = (\<lambda>s. filter (progress s) (ms a s) @ [s])"
| "ms (Star a) = (\<lambda>s. star (length (fst (snd s))) (ms a) s)"
| "ms (StarLazy a) = (\<lambda>s. star_lazy (length (fst (snd s))) (ms a) s)"
| "ms (Grp n a) = (\<lambda>s. map (set_group n (fst (snd s))) (ms a s))"

definition seq :: "regex list \<Rightarrow> regex" where
  "seq rs = foldr Seq rs Eps"

definition plus :: "regex \<Rightarrow> regex" where
  "plus r = Seq r (Star r)"

definition plus_lazy :: "regex \<Rightarrow> regex" where
  "plus_lazy r = Seq r (StarLazy r)"

text \<open>\<open>.\<close> without the \<open>s\<close> flag: any character but a line terminator.\<close>

definition dot :: regex where
  "dot = Cls (\<lambda>c. \<not> is_line_terminator c)"

text \<open>
  A match result: the index of the match, the matched text (element 0 of the result
  array) and the captures (element \<open>n\<close> is \<open>groups n\<close>, \<open>None\<close> for undefined).
\<close>

record rmatch =
  index :: nat
  whole :: string
  groups :: "nat \<Rightarrow> string option"

text \<open>The leftmost position at or after the current one where the pattern matches.\<close>

fun search :: "regex \<Rightarrow> string \<Rightarrow> string \<Rightarrow> rmatch option" where
  "search re pre [] =
     (case ms re (pre, [], Map.empty) of
        [] \<Rightarrow> None
      | (pre', rest', caps) # _ \<Rightarrow> Some \<lparr>index = length pre, whole = [], groups = caps\<rparr>)"
| "search re pre (c # cs) =
     (case ms re (pre, c # cs, Map.empty) of
        [] \<Rightarrow> search re (c # pre) cs
      | (pre', rest', caps) # _ \<Rightarrow>
          Some \<lparr>index = length pre,
                whole = take (length (c # cs) - length rest') (c # cs),
                groups = caps\<rparr>)"

text \<open>\<open>RegExp.prototype.exec\<close> and \<open>String.prototype.match\<close> of a pattern without the \<open>g\<close> flag.\<close>

definition js_exec :: "regex \<Rightarrow> string \<Rightarrow> rmatch option" where
  "js_exec re s = search re [] s"

definition js_test :: "regex \<Rightarrow> string \<Rightarrow> bool" where
  "js_test re s = (js_exec re s \<noteq> None)"

text \<open>
  All matches of a pattern with the \<open>g\<close> flag, as \<open>String.prototype.replace\<close> collects
  them before it calls the replacer: the search resumes at the end of the last match,
  one further after an empty match.
\<close>

function match_all :: "regex \<Rightarrow> string \<Rightarrow> string \<Rightarrow> rmatch list" where
  "match_all re pre rest =
     (case search re pre rest of
        None \<Rightarrow> []
      | Some r \<Rightarrow>
          (let adv = index r - length pre + max 1 (length (whole r))
           in r # (if length rest < adv then []
                   else match_all re (rev (take adv rest) @ pre) (drop adv rest))))"
  by pat_completeness auto
termination
  by (relation "measure (\<lambda>(re, pre, rest). length rest)") auto

definition js_matchAll :: "regex \<Rightarrow> string \<Rightarrow> rmatch list" where
  "js_matchAll re s = match_all re [] s"

section \<open>The patterns of the source\<close>

definition ws :: regex where
  "ws = Cls is_space"

definition digit :: regex where
  "digit = Cls is_digit"

definition nonspace :: regex where
  "nonspace = Cls (\<lambda>c. \<not> is_space c)"

text \<open>\<^verbatim>\<open>/<!--\s*@include:\s*(.*?)\s*-->/g\<close>\<close>

definition includesRE :: regex where
  "includesRE =
     seq [Str ''<!--'', Star ws, Str ''@include:'', Star ws, Grp 1 (StarLazy dot), Star ws,
          Str ''-->'']"

text \<open>\<^verbatim>\<open>/^<<<\s*(.*?)$/gm\<close>\<close>

definition snippetRE :: regex where
  "snippetRE = seq [BolM, Str ''<<<'', Star ws, Grp 1 (StarLazy dot), EolM]"

text \<open>\<^verbatim>\<open>/(#[^\s{]+)/\<close>\<close>

definition regionRE :: regex where
  "regionRE = Grp 1 (seq [Str ''#'', plus (Cls (\<lambda>c. \<not> is_space c \<and> c \<noteq> CHR ''{''))])"

text \<open>\<^verbatim>\<open>/\{(\d*),(\d*)\}$/\<close>\<close>

definition rangeRE :: regex where
  "rangeRE = seq [Str ''{'', Grp 1 (Star digit), Str '','', Grp 2 (Star digit), Str ''}'', Eol]"

text \<open>
  \<^verbatim>\<open>/^(.+?(?:(?:\.([a-z0-9]+))?))(?:(#[\w-]+))?(?: ?(?:{(\d+(?:[,-]\d+)*)? ?(\S+)? ?(\S+)?}))? ?(?:\[(.+)\])?$/\<close>
\<close>

definition rawPathRegexp :: regex where
  "rawPathRegexp =
     seq [Bol,
          Grp 1 (seq [plus_lazy dot, Opt (seq [Str ''.'', Grp 2 (plus (Cls is_lower_alnum))])]),
          Opt (Grp 3 (seq [Str ''#'', plus (Cls (\<lambda>c. is_word c \<or> c = CHR ''-''))])),
          Opt (seq [Opt (Str '' ''), Str ''{'',
                    Opt (Grp 4 (seq [plus digit,
                                     Star (seq [Cls (\<lambda>c. c = CHR '','' \<or> c = CHR ''-''),
                                                plus digit])])),
                    Opt (Str '' ''), Opt (Grp 5 (plus nonspace)),
                    Opt (Str '' ''), Opt (Grp 6 (plus nonspace)), Str ''}'']),
          Opt (Str '' ''),
          Opt (seq [Str ''['', Grp 7 (plus dot), Str '']'']),
          Eol]"

text \<open>The region markers: one pair of patterns per comment dialect, in the source's order.\<close>

record marker =
  m_start :: regex
  m_end :: regex

definition name_to_eol :: "regex list" where
  "name_to_eol = [WordB, Star ws, Grp 1 (StarLazy dot), Star ws, Eol]"

definition name_to :: "string \<Rightarrow> regex list" where
  "name_to closer = [WordB, Star ws, Grp 1 (StarLazy dot), Star ws, Str closer]"

definition markers :: "marker list" where
  "markers =
    [\<lparr>m_start = seq ([Bol, Star ws, Str ''//'', Star ws, Opt (Str ''#''), Str ''region''] @ name_to_eol),
      m_end = seq ([Bol, Star ws, Str ''//'', Star ws, Opt (Str ''#''), Str ''endregion''] @ name_to_eol)\<rparr>,
     \<lparr>m_start = seq ([Bol, Star ws, Str ''<!--'', Star ws, Opt (Str ''#''), Str ''region''] @ name_to ''-->''),
      m_end = seq ([Bol, Star ws, Str ''<!--'', Star ws, Opt (Str ''#''), Str ''endregion''] @ name_to ''-->'')\<rparr>,
     \<lparr>m_start = seq ([Bol, Star ws, Str ''/*'', Star ws, Str ''#region''] @ name_to ''*/''),
      m_end = seq ([Bol, Star ws, Str ''/*'', Star ws, Str ''#endregion''] @ name_to ''*/'')\<rparr>,
     \<lparr>m_start = seq ([Bol, Star ws, Str ''#'', Alt (Str ''r'') (Str ''R''), Str ''egion''] @ name_to_eol),
      m_end = seq ([Bol, Star ws, Str ''#'', Alt (Str ''e'') (Str ''E''), Str ''nd'', Opt (Str '' ''),
                    Alt (Str ''r'') (Str ''R''), Str ''egion''] @ name_to_eol)\<rparr>,
     \<lparr>m_start = seq ([Bol, Star ws, Str ''#'', Star ws, Opt (Str ''#''), Str ''region''] @ name_to_eol),
      m_end = seq ([Bol, Star ws, Str ''#'', Star ws, Opt (Str ''#''), Str ''endregion''] @ name_to_eol)\<rparr>,
     \<lparr>m_start = seq ([Bol, Star ws, Alt (Str ''--'') (Alt (Str ''::'') (Seq (Opt (Str ''@'')) (Str ''REM''))),
                      Star ws, Str ''#region''] @ name_to_eol),
      m_end = seq ([Bol, Star ws, Alt (Str ''--'') (Alt (Str ''::'') (Seq (Opt (Str ''@'')) (Str ''REM''))),
                    Star ws, Str ''#endregion''] @ name_to_eol)\<rparr>,
     \<lparr>m_start = seq ([Bol, Star ws, Str ''#pragma'', plus ws, Str ''region''] @ name_to_eol),
      m_end = seq ([Bol, Star ws, Str ''#pragma'', plus ws, Str ''endregion''] @ name_to_eol)\<rparr>,
     \<lparr>m_start = seq ([Bol, Star ws, Str ''(*'', Star ws, Str ''#region''] @ name_to ''*)''),
      m_end = seq ([Bol, Star ws, Str ''(*'', Star ws, Str ''#endregion''] @ name_to ''*)'')\<rparr>]"

section \<open>rawPathToToken\<close>

record token =
  filepath :: string
  extension :: string
  region :: string
  lines :: string
  lang :: string
  attrs :: string
  title :: string

text \<open>A capture that is undefined, or a pattern that does not match, gives the default \<open>''\<close>.\<close>

definition or_empty :: "string option \<Rightarrow> string" where
  "or_empty v = (case v of None \<Rightarrow> [] | Some x \<Rightarrow> x)"

definition rawPathToToken :: "string \<Rightarrow> token" where
  "rawPathToToken rawPath =
     (let g = (case js_exec rawPathRegexp rawPath of None \<Rightarrow> Map.empty | Some r \<Rightarrow> groups r)
      in \<lparr>filepath = or_empty (g 1), extension = or_empty (g 2), region = or_empty (g 3),
          lines = or_empty (g 4), lang = or_empty (g 5), attrs = or_empty (g 6),
          title = or_empty (g 7)\<rparr>)"

section \<open>findRegion\<close>

text \<open>\<open>re.exec(line)?.[1]\<close>: the first capture, \<open>None\<close> when the pattern does not match.\<close>

definition capture1 :: "regex \<Rightarrow> string \<Rightarrow> string option" where
  "capture1 re line = (case js_exec re line of None \<Rightarrow> None | Some r \<Rightarrow> groups r 1)"

text \<open>
  The first loop: the first line where a start pattern captures the region name, with
  the first such pattern of \<open>markers\<close>; \<open>start\<close> is the index after that line.
\<close>

fun find_start :: "string list \<Rightarrow> nat \<Rightarrow> string \<Rightarrow> (marker \<times> nat) option" where
  "find_start [] i regionName = None"
| "find_start (l # ls) i regionName =
     (case find (\<lambda>re. capture1 (m_start re) l = Some regionName) markers of
        Some re \<Rightarrow> Some (re, i + 1)
      | None \<Rightarrow> find_start ls (i + 1) regionName)"

text \<open>The second loop, from line \<open>i\<close> on with the nesting counter \<open>counter\<close>.\<close>

fun find_end :: "marker \<Rightarrow> string \<Rightarrow> string list \<Rightarrow> nat \<Rightarrow> nat \<Rightarrow> nat option" where
  "find_end re regionName [] i counter = None"
| "find_end re regionName (l # ls) i counter =
     (if capture1 (m_start re) l = Some regionName
      then find_end re regionName ls (i + 1) (counter + 1)
      else (let endRegion = capture1 (m_end re) l
            in if endRegion = Some regionName \<or> endRegion = Some []
               then (if counter - 1 = 0 then Some i
                     else find_end re regionName ls (i + 1) (counter - 1))
               else find_end re regionName ls (i + 1) counter))"

definition findRegion :: "string list \<Rightarrow> string \<Rightarrow> (marker \<times> nat \<times> nat) option" where
  "findRegion lns regionName =
     (case find_start lns 0 regionName of
        None \<Rightarrow> None
      | Some (re, start) \<Rightarrow>
          (case find_end re regionName (drop start lns) start 1 of
             None \<Rightarrow> None
           | Some e \<Rightarrow> Some (re, start, e)))"

section \<open>dedent\<close>

text \<open>
  The accumulator of the \<open>reduce\<close> is \<open>None\<close> for \<open>Infinity\<close>. \<open>first_non_blank\<close> is the
  inner loop: the index of the first character that is neither a space nor a tab.
\<close>

fun first_non_blank :: "string \<Rightarrow> nat \<Rightarrow> nat option" where
  "first_non_blank [] i = None"
| "first_non_blank (c # cs) i =
     (if c \<noteq> CHR '' '' \<and> c \<noteq> TAB then Some i else first_non_blank cs (i + 1))"

definition min_indent :: "nat option \<Rightarrow> string \<Rightarrow> nat option" where
  "min_indent acc line =
     (case first_non_blank line 0 of
        Some i \<Rightarrow> Some (case acc of None \<Rightarrow> i | Some a \<Rightarrow> min i a)
      | None \<Rightarrow> acc)"

definition dedent :: "string \<Rightarrow> string" where
  "dedent text =
     (let lns = js_split NL text;
          minIndentLength = foldl min_indent None lns
      in case minIndentLength of
           Some k \<Rightarrow> js_join [NL] (map (\<lambda>x. js_slice x (Some (int k)) None) lns)
         | None \<Rightarrow> text)"

section \<open>The environment and the processing state\<close>

text \<open>
  What the code takes from outside: the options \<open>srcDir\<close> and \<open>stripFrontmatter\<close>, the
  file system (\<open>readFileSync\<close> is \<open>None\<close> when it throws), the functions of
  \<open>node:path\<close>, and \<open>matter(content).content\<close> of gray-matter (\<open>None\<close> when it throws).
\<close>

record env =
  srcDir :: string
  stripFrontmatter :: bool
  existsSync :: "string \<Rightarrow> bool"
  readFileSync :: "string \<Rightarrow> string option"
  path_join :: "string \<Rightarrow> string \<Rightarrow> string"
  path_resolve :: "string \<Rightarrow> string \<Rightarrow> string"
  path_dirname :: "string \<Rightarrow> string"
  path_extname :: "string \<Rightarrow> string"
  matter_content :: "string \<Rightarrow> string option"

text \<open>
  What the code changes: the array \<open>includes\<close> (\<open>include_list\<close>), and the messages given to \<open>log.warn\<close>
  and to \<open>console.warn\<close>.
\<close>

record pstate =
  include_list :: "string list"
  log_warn :: "string list"
  console_warn :: "string list"

type_synonym 'a result = "('a \<times> pstate) option"

section \<open>String.prototype.replace with a replacer function\<close>

text \<open>
  The replacer is called for the matches in order; the text between the matches is
  kept. A replacer that does not return (\<open>None\<close>) leaves the whole call without result.
\<close>

fun splice ::
  "(string \<Rightarrow> (nat \<Rightarrow> string option) \<Rightarrow> pstate \<Rightarrow> string result) \<Rightarrow>
   string \<Rightarrow> nat \<Rightarrow> rmatch list \<Rightarrow> pstate \<Rightarrow> string result" where
  "splice cb s p [] st = Some (drop p s, st)"
| "splice cb s p (r # rs) st =
     (case cb (whole r) (groups r) st of
        None \<Rightarrow> None
      | Some (rep, st') \<Rightarrow>
          (case splice cb s (index r + length (whole r)) rs st' of
             None \<Rightarrow> None
           | Some (out, st'') \<Rightarrow> Some (take (index r - p) (drop p s) @ rep @ out, st'')))"

definition js_replace ::
  "regex \<Rightarrow> (string \<Rightarrow> (nat \<Rightarrow> string option) \<Rightarrow> pstate \<Rightarrow> string result) \<Rightarrow>
   string \<Rightarrow> pstate \<Rightarrow> string result" where
  "js_replace re cb s st = splice cb s 0 (js_matchAll re s) st"

section \<open>processIncludes\<close>

definition warn :: "string \<Rightarrow> pstate \<Rightarrow> pstate" where
  "warn msg st = st\<lparr>log_warn := log_warn st @ [msg]\<rparr>"

definition matched_length :: "rmatch option \<Rightarrow> nat" where
  "matched_length r = (case r of None \<Rightarrow> 0 | Some x \<Rightarrow> length (whole x))"

text \<open>The path of the directive: the payload without its meta.\<close>

definition strip_meta :: "string \<Rightarrow> string" where
  "strip_meta m1 =
     (let range = js_exec rangeRE m1;
          region = js_exec regionRE m1;
          hasMeta = (region \<noteq> None \<or> range \<noteq> None)
      in if hasMeta
         then (let len = matched_length region + matched_length range
               in js_slice m1 (Some 0) (Some (- int len)))
         else m1)"

definition includePath :: "env \<Rightarrow> string \<Rightarrow> string \<Rightarrow> string" where
  "includePath E filePath m1 =
     (let atPresent = (m1 \<noteq> [] \<and> hd m1 = CHR ''@'')
      in if atPresent
         then path_join E (srcDir E)
                (js_slice m1 (Some (if 1 < length m1 \<and> m1 ! 1 = CHR ''/'' then 2 else 1)) None)
         else path_join E (path_dirname E filePath) m1)"

text \<open>The region selection of an include: the lines of the region, or a warning.\<close>

definition select_region :: "string \<Rightarrow> string \<Rightarrow> string \<Rightarrow> pstate \<Rightarrow> string \<times> pstate" where
  "select_region regionName path content st =
     (let lns = split_lines content
      in case findRegion lns (js_slice regionName (Some 1) None) of
           Some (re, start, e) \<Rightarrow> (js_join [NL] (js_slice lns (Some (int start)) (Some (int e))), st)
         | None \<Rightarrow>
             (content,
              st\<lparr>console_warn := console_warn st @
                    [''[remark-include] Region '' @ [CHR 0x27] @ regionName @ [CHR 0x27] @
                     '' not found in '' @ path]\<rparr>))"

text \<open>The line range selection of an include.\<close>

definition select_range :: "string \<Rightarrow> string \<Rightarrow> string \<Rightarrow> string" where
  "select_range startLine endLine content =
     (let lns = split_lines content
      in js_join [NL]
           (js_slice lns
              (if startLine \<noteq> [] then Some (to_index (map_option (\<lambda>n. n - 1) (parseInt startLine)))
               else None)
              (if endLine \<noteq> [] then Some (to_index (parseInt endLine)) else None)))"

text \<open>
  The replacer of \<open>processIncludes\<close>; \<open>rec\<close> is the recursive call. Every exception of
  the \<open>try\<close> block ends in the \<open>catch\<close>: the warning, and the directive \<open>m\<close> as it was.
\<close>

definition includeCallback ::
  "(string \<Rightarrow> pstate \<Rightarrow> string result) \<Rightarrow> env \<Rightarrow> string \<Rightarrow>
   string \<Rightarrow> string \<Rightarrow> pstate \<Rightarrow> string result" where
  "includeCallback rec E filePath m m1 st =
     (if m1 = [] then Some (m, st)
      else
        (let range = js_exec rangeRE m1;
             region = js_exec regionRE m1;
             hasMeta = (region \<noteq> None \<or> range \<noteq> None);
             m1' = strip_meta m1;
             path = includePath E filePath m1';
             caught = (\<lambda>st'. Some (m, warn (''[remark-include] Include file not found: '' @ m1') st'))
         in if \<not> existsSync E path then caught st
            else
              (case readFileSync E path of
                 None \<Rightarrow> caught st
               | Some content \<Rightarrow>
                   (let (content1, st1) =
                          (case region of
                             Some r \<Rightarrow> select_region (whole r) path content st
                           | None \<Rightarrow> (content, st));
                        content2 =
                          (case range of
                             Some r \<Rightarrow>
                               select_range (or_empty (groups r 1)) (or_empty (groups r 2)) content1
                           | None \<Rightarrow> content1)
                    in case (if \<not> hasMeta \<and> path_extname E path = ''.md'' \<and> stripFrontmatter E
                             then matter_content E content2 else Some content2) of
                         None \<Rightarrow> caught st1
                       | Some content3 \<Rightarrow>
                           rec content3 (st1\<lparr>include_list := include_list st1 @ [path]\<rparr>)))))"

text \<open>
  The recursion of \<open>processIncludes\<close> has no bound in the source (a cycle of includes
  never ends), so the model counts the depth: \<open>None\<close> when the depth \<open>n\<close> does not suffice.
\<close>

fun processIncludes :: "nat \<Rightarrow> env \<Rightarrow> string \<Rightarrow> string \<Rightarrow> pstate \<Rightarrow> string result" where
  "processIncludes 0 E filePath content st = None"
| "processIncludes (Suc n) E filePath content st =
     js_replace includesRE
       (\<lambda>m g. includeCallback (processIncludes n E filePath) E filePath m (or_empty (g 1)))
       content st"

section \<open>processSnippets\<close>

definition snippetPath :: "env \<Rightarrow> string \<Rightarrow> string \<Rightarrow> string" where
  "snippetPath E filePath rawPath =
     (let cleanPath = js_trim rawPath;
          atPresent = (cleanPath \<noteq> [] \<and> hd cleanPath = CHR ''@'');
          pathToParse = (if atPresent then js_slice cleanPath (Some 1) None else cleanPath);
          tok = rawPathToToken pathToParse
      in if atPresent then path_join E (srcDir E) (filepath tok)
         else path_resolve E (path_dirname E filePath) (filepath tok))"

definition snippet_token :: "string \<Rightarrow> token" where
  "snippet_token rawPath =
     (let cleanPath = js_trim rawPath;
          atPresent = (cleanPath \<noteq> [] \<and> hd cleanPath = CHR ''@'');
          pathToParse = (if atPresent then js_slice cleanPath (Some 1) None else cleanPath)
      in rawPathToToken pathToParse)"

text \<open>The body of the fenced block: the file, or the region of it without its marker lines.\<close>

definition snippet_content :: "string \<Rightarrow> string \<Rightarrow> string" where
  "snippet_content region_tok raw =
     (let content = replace_crlf raw
      in if region_tok \<noteq> []
         then (let regionName = js_slice region_tok (Some 1) None;
                   contentLines = js_split NL content
               in case findRegion contentLines regionName of
                    Some (re, start, e) \<Rightarrow>
                      dedent (js_join [NL]
                        (filter (\<lambda>l. \<not> (js_test (m_start re) l \<or> js_test (m_end re) l))
                           (js_slice contentLines (Some (int start)) (Some (int e)))))
                  | None \<Rightarrow> content)
         else content)"

definition snippet_info :: "token \<Rightarrow> string" where
  "snippet_info tok =
     js_trim ((if lang tok \<noteq> [] then lang tok else extension tok) @
              (if lines tok \<noteq> [] then ''{'' @ lines tok @ ''}'' else []) @
              (if title tok \<noteq> [] then ''['' @ title tok @ '']'' else []) @
              (if attrs tok \<noteq> [] then '' '' @ attrs tok else []))"

definition snippetCallback ::
  "env \<Rightarrow> string \<Rightarrow> string \<Rightarrow> string \<Rightarrow> pstate \<Rightarrow> string result" where
  "snippetCallback E filePath m rawPath st =
     (if rawPath = [] then Some (m, st)
      else
        (let tok = snippet_token rawPath;
             path = snippetPath E filePath rawPath;
             caught = Some (m, warn (''[remark-include] Snippet file not found: '' @ rawPath) st)
         in if \<not> existsSync E path then caught
            else
              (case readFileSync E path of
                 None \<Rightarrow> caught
               | Some raw \<Rightarrow>
                   Some (''```'' @ snippet_info tok @ [NL] @ snippet_content (region tok) raw @ [NL] @ ''```'',
                         st\<lparr>include_list := include_list st @ [path]\<rparr>))))"

definition processSnippets :: "env \<Rightarrow> string \<Rightarrow> string \<Rightarrow> pstate \<Rightarrow> string result" where
  "processSnippets E filePath content st =
     js_replace snippetRE (\<lambda>m g. snippetCallback E filePath m (or_empty (g 1))) content st"

section \<open>Properties of the helpers\<close>

lemma js_slice_from: "js_slice xs (Some (int k)) None = drop k xs"
  by (cases "k \<le> length xs") (simp_all add: js_slice_def rel_index_def Let_def min_def)

section \<open>dedent: which lines count for the indent\<close>

definition is_blank :: "char \<Rightarrow> bool" where
  "is_blank c = (c = CHR '' '' \<or> c = TAB)"

definition leading_blanks :: "string \<Rightarrow> nat" where
  "leading_blanks l = length (takeWhile is_blank l)"

text \<open>A line has ink when one of its characters is neither a space nor a tab.\<close>

definition has_ink :: "string \<Rightarrow> bool" where
  "has_ink l = list_ex (\<lambda>c. \<not> is_blank c) l"

text \<open>
  The dedent of the specification's wording, for comparison: every line takes part in
  the minimum with the number of blanks it starts with, a line of blanks too.
\<close>

definition dedent_every_line :: "string \<Rightarrow> string" where
  "dedent_every_line text =
     (let lns = js_split NL text
      in if filter has_ink lns = [] then text
         else js_join [NL] (map (drop (Min (set (map leading_blanks lns)))) lns))"

lemma first_non_blank_eq:
  "first_non_blank l i = (if has_ink l then Some (i + leading_blanks l) else None)"
  by (induction l arbitrary: i) (auto simp: has_ink_def leading_blanks_def is_blank_def)

lemma min_indent_eq:
  "min_indent acc l =
     (if has_ink l
      then Some (case acc of None \<Rightarrow> leading_blanks l | Some a \<Rightarrow> min (leading_blanks l) a)
      else acc)"
  by (simp add: min_indent_def first_non_blank_eq)

lemma foldl_min_indent:
  "foldl min_indent acc lns =
     (let ks = map leading_blanks (filter has_ink lns)
      in case acc of
           None \<Rightarrow> (if ks = [] then None else Some (Min (set ks)))
         | Some a \<Rightarrow> Some (Min (set (a # ks))))"
proof (induction lns arbitrary: acc)
  case Nil
  then show ?case by (simp split: option.splits)
next
  case (Cons l lns)
  define ks where "ks = map leading_blanks (filter has_ink lns)"
  show ?case
  proof (cases "has_ink l")
    case False
    then show ?thesis using Cons.IH [of acc] by (simp add: min_indent_eq)
  next
    case True
    show ?thesis
    proof (cases acc)
      case None
      with True have "foldl min_indent acc (l # lns) = foldl min_indent (Some (leading_blanks l)) lns"
        by (simp add: min_indent_eq)
      also have "\<dots> = Some (Min (set (leading_blanks l # ks)))"
        using Cons.IH [of "Some (leading_blanks l)"] by (simp add: ks_def)
      finally show ?thesis using True None by (simp add: ks_def)
    next
      case (Some a)
      with True have "foldl min_indent acc (l # lns) =
          foldl min_indent (Some (min (leading_blanks l) a)) lns"
        by (simp add: min_indent_eq)
      also have "\<dots> = Some (Min (set (min (leading_blanks l) a # ks)))"
        using Cons.IH [of "Some (min (leading_blanks l) a)"] by (simp add: ks_def)
      also have "Min (set (min (leading_blanks l) a # ks)) = Min (set (a # leading_blanks l # ks))"
        by (cases "ks = []") (simp_all add: min.commute min.left_commute min.assoc)
      finally show ?thesis using True Some by (simp add: ks_def)
    qed
  qed
qed

text \<open>
  C9, as the code has it: dedent takes the minimum number of leading blanks (spaces or
  tabs) over the lines that have ink only; a line without ink, empty or all blanks, is
  skipped and does not lower the minimum. It strips that many leading characters from
  every line and joins the lines with a newline. When no line has ink the text is
  returned unchanged.
\<close>

theorem dedent_skips_blank_lines:
  "dedent text =
     (let lns = js_split NL text; inked = filter has_ink lns
      in if inked = [] then text
         else js_join [NL] (map (drop (Min (set (map leading_blanks inked)))) lns))"
  by (simp add: dedent_def foldl_min_indent Let_def js_slice_from)

text \<open>
  Three lines indented by 4, 2 (blanks only) and 6: the indent removed is 4, and the
  line of two blanks becomes empty.
\<close>

theorem dedent_skips_blank_lines_witness:
  "dedent (''    a'' @ [NL] @ ''  '' @ [NL] @ ''      b'') = ''a'' @ [NL] @ [NL] @ ''  b''"
  using dedent_skips_blank_lines [of "''    a'' @ [NL] @ ''  '' @ [NL] @ ''      b''"]
  by (simp add: has_ink_def leading_blanks_def is_blank_def)

text \<open>
  C9 as stated fails: on a line indented by 4 followed by a line of two blanks, counting
  the line of blanks would remove 2 characters; the code removes 4.
\<close>

theorem dedent_counterexample:
  "dedent (''    a'' @ [NL] @ ''  '') \<noteq> dedent_every_line (''    a'' @ [NL] @ ''  '')"
  by (simp add: dedent_def dedent_every_line_def min_indent_def js_slice_def rel_index_def
        has_ink_def leading_blanks_def is_blank_def)

section \<open>findRegion: the region it returns\<close>

text \<open>
  A line opens the region for a dialect when the dialect's start pattern captures the
  region name on it. It closes the region when it does not open it and the end pattern
  captures the name or the empty string: the loop tests the start pattern first and
  goes on to the next line when it matches.
\<close>

definition opens :: "marker \<Rightarrow> string \<Rightarrow> string \<Rightarrow> bool" where
  "opens re regionName l = (capture1 (m_start re) l = Some regionName)"

definition closes :: "marker \<Rightarrow> string \<Rightarrow> string \<Rightarrow> bool" where
  "closes re regionName l =
     (\<not> opens re regionName l \<and>
      (capture1 (m_end re) l = Some regionName \<or> capture1 (m_end re) l = Some []))"

text \<open>What a line does to the nesting counter.\<close>

definition nesting_step :: "marker \<Rightarrow> string \<Rightarrow> string \<Rightarrow> int" where
  "nesting_step re regionName l =
     (if opens re regionName l then 1 else if closes re regionName l then - 1 else 0)"

text \<open>
  The counter after the lines \<open>s\<close> to \<open>k\<close>, both included; it is 1 when the
  scan starts at line \<open>s\<close>.
\<close>

definition counter_after :: "marker \<Rightarrow> string \<Rightarrow> string list \<Rightarrow> nat \<Rightarrow> nat \<Rightarrow> int" where
  "counter_after re regionName lns s k =
     1 + sum_list (map (nesting_step re regionName) (take (Suc k - s) (drop s lns)))"

text \<open>
  The region of the specification: \<open>s\<close> is the index after the first line that any
  dialect opens, \<open>re\<close> is the first dialect of \<open>markers\<close> that opens it, and \<open>e\<close> is
  the first line from \<open>s\<close> on where the counter is zero.
\<close>

definition region_spec :: "string list \<Rightarrow> string \<Rightarrow> marker \<Rightarrow> nat \<Rightarrow> nat \<Rightarrow> bool" where
  "region_spec lns regionName re s e =
     ((\<exists>i<length lns. s = Suc i \<and>
          (\<forall>j<i. \<forall>m\<in>set markers. \<not> opens m regionName (lns ! j)) \<and>
          find (\<lambda>m. opens m regionName (lns ! i)) markers = Some re) \<and>
      s \<le> e \<and> e < length lns \<and>
      counter_after re regionName lns s e = 0 \<and>
      (\<forall>k. s \<le> k \<and> k < e \<longrightarrow> counter_after re regionName lns s k \<noteq> 0))"

lemma find_start_iff:
  "find_start ls i regionName = Some (re, s) \<longleftrightarrow>
     (\<exists>k<length ls. s = i + Suc k \<and>
        (\<forall>j<k. \<forall>m\<in>set markers. \<not> opens m regionName (ls ! j)) \<and>
        find (\<lambda>m. opens m regionName (ls ! k)) markers = Some re)"
proof (induction ls arbitrary: i)
  case Nil
  then show ?case by simp
next
  case (Cons l ls)
  show ?case
  proof (cases "find (\<lambda>m. opens m regionName l) markers")
    case None
    then have no: "\<forall>m\<in>set markers. \<not> opens m regionName l"
      by (simp add: find_None_iff)
    have "find_start (l # ls) i regionName = find_start ls (Suc i) regionName"
      using None by (simp add: opens_def)
    then have "find_start (l # ls) i regionName = Some (re, s) \<longleftrightarrow>
        (\<exists>k<length ls. s = Suc i + Suc k \<and>
          (\<forall>j<k. \<forall>m\<in>set markers. \<not> opens m regionName (ls ! j)) \<and>
          find (\<lambda>m. opens m regionName (ls ! k)) markers = Some re)"
      using Cons.IH [of "Suc i"] by simp
    also have "\<dots> \<longleftrightarrow>
        (\<exists>k<length (l # ls). s = i + Suc k \<and>
          (\<forall>j<k. \<forall>m\<in>set markers. \<not> opens m regionName ((l # ls) ! j)) \<and>
          find (\<lambda>m. opens m regionName ((l # ls) ! k)) markers = Some re)"
      (is "?A \<longleftrightarrow> ?B")
    proof
      assume ?A
      then obtain k where k: "k < length ls" "s = Suc i + Suc k"
          "\<forall>j<k. \<forall>m\<in>set markers. \<not> opens m regionName (ls ! j)"
          "find (\<lambda>m. opens m regionName (ls ! k)) markers = Some re"
        by blast
      have "\<forall>j<Suc k. \<forall>m\<in>set markers. \<not> opens m regionName ((l # ls) ! j)"
        using k(3) no by (auto simp: less_Suc_eq_0_disj)
      with k show ?B by (intro exI [of _ "Suc k"]) simp
    next
      assume ?B
      then obtain k where k: "k < length (l # ls)" "s = i + Suc k"
          "\<forall>j<k. \<forall>m\<in>set markers. \<not> opens m regionName ((l # ls) ! j)"
          "find (\<lambda>m. opens m regionName ((l # ls) ! k)) markers = Some re"
        by blast
      from k(4) None obtain k' where k': "k = Suc k'" by (cases k) auto
      have "\<forall>j<k'. \<forall>m\<in>set markers. \<not> opens m regionName (ls ! j)"
        using k(3) k' by auto
      with k k' show ?A by (intro exI [of _ k']) simp
    qed
    finally show ?thesis .
  next
    case (Some re0)
    then have yes: "re0 \<in> set markers" "opens re0 regionName l"
      by (auto simp: find_Some_iff)
    have fs: "find_start (l # ls) i regionName = Some (re0, Suc i)"
      using Some by (simp add: opens_def)
    show ?thesis
    proof
      assume "find_start (l # ls) i regionName = Some (re, s)"
      with fs have "re = re0" "s = Suc i" by simp_all
      with Some show "\<exists>k<length (l # ls). s = i + Suc k \<and>
          (\<forall>j<k. \<forall>m\<in>set markers. \<not> opens m regionName ((l # ls) ! j)) \<and>
          find (\<lambda>m. opens m regionName ((l # ls) ! k)) markers = Some re"
        by (intro exI [of _ 0]) simp
    next
      assume "\<exists>k<length (l # ls). s = i + Suc k \<and>
          (\<forall>j<k. \<forall>m\<in>set markers. \<not> opens m regionName ((l # ls) ! j)) \<and>
          find (\<lambda>m. opens m regionName ((l # ls) ! k)) markers = Some re"
      then obtain k where k: "k < length (l # ls)" "s = i + Suc k"
          "\<forall>j<k. \<forall>m\<in>set markers. \<not> opens m regionName ((l # ls) ! j)"
          "find (\<lambda>m. opens m regionName ((l # ls) ! k)) markers = Some re"
        by blast
      have "k = 0"
      proof (rule ccontr)
        assume "k \<noteq> 0"
        then have "0 < k" by simp
        with k(3) yes show False by force
      qed
      with k Some fs show "find_start (l # ls) i regionName = Some (re, s)" by simp
    qed
  qed
qed

lemma find_end_iff:
  "1 \<le> c \<Longrightarrow>
   find_end re regionName ls i c = Some e \<longleftrightarrow>
     (\<exists>k<length ls. e = i + k \<and>
        int c + sum_list (map (nesting_step re regionName) (take (Suc k) ls)) = 0 \<and>
        (\<forall>j<k. int c + sum_list (map (nesting_step re regionName) (take (Suc j) ls)) \<noteq> 0))"
proof (induction ls arbitrary: i c)
  case Nil
  then show ?case by simp
next
  case (Cons l ls)
  let ?step = "nesting_step re regionName"
  let ?R = "\<lambda>c i ls. (\<exists>k<length ls. e = i + k \<and>
        int c + sum_list (map ?step (take (Suc k) ls)) = 0 \<and>
        (\<forall>j<k. int c + sum_list (map ?step (take (Suc j) ls)) \<noteq> 0))"
  have shift: "?R c i (l # ls) \<longleftrightarrow> ?R c' (Suc i) ls"
    if "int c' = int c + ?step l" "1 \<le> c'" for c'
  proof
    assume "?R c i (l # ls)"
    then obtain k where k: "k < length (l # ls)" "e = i + k"
        "int c + sum_list (map ?step (take (Suc k) (l # ls))) = 0"
        "\<forall>j<k. int c + sum_list (map ?step (take (Suc j) (l # ls))) \<noteq> 0"
      by blast
    from k(3) that obtain k' where k': "k = Suc k'" by (cases k) auto
    have "\<forall>j<k'. int c' + sum_list (map ?step (take (Suc j) ls)) \<noteq> 0"
    proof (intro allI impI)
      fix j assume "j < k'"
      then have "Suc j < k" using k' by simp
      with k(4) have "int c + sum_list (map ?step (take (Suc (Suc j)) (l # ls))) \<noteq> 0" by blast
      then show "int c' + sum_list (map ?step (take (Suc j) ls)) \<noteq> 0"
        using that by simp
    qed
    moreover have "int c' + sum_list (map ?step (take (Suc k') ls)) = 0"
      using k(3) k' that by simp
    ultimately show "?R c' (Suc i) ls" using k k' by (intro exI [of _ k']) simp
  next
    assume "?R c' (Suc i) ls"
    then obtain k where k: "k < length ls" "e = Suc i + k"
        "int c' + sum_list (map ?step (take (Suc k) ls)) = 0"
        "\<forall>j<k. int c' + sum_list (map ?step (take (Suc j) ls)) \<noteq> 0"
      by blast
    have "\<forall>j<Suc k. int c + sum_list (map ?step (take (Suc j) (l # ls))) \<noteq> 0"
    proof (intro allI impI)
      fix j assume j: "j < Suc k"
      show "int c + sum_list (map ?step (take (Suc j) (l # ls))) \<noteq> 0"
      proof (cases j)
        case 0
        then show ?thesis using that by simp
      next
        case (Suc j')
        with j have "j' < k" by simp
        with k(4) have "int c' + sum_list (map ?step (take (Suc j') ls)) \<noteq> 0" by blast
        then show ?thesis using Suc that by simp
      qed
    qed
    moreover have "int c + sum_list (map ?step (take (Suc (Suc k)) (l # ls))) = 0"
      using k(3) that by simp
    ultimately show "?R c i (l # ls)" using k by (intro exI [of _ "Suc k"]) simp
  qed
  show ?case
  proof (cases "opens re regionName l")
    case True
    then have "find_end re regionName (l # ls) i c = find_end re regionName ls (Suc i) (Suc c)"
      by (simp add: opens_def)
    moreover have "?R c i (l # ls) \<longleftrightarrow> ?R (Suc c) (Suc i) ls"
      using True by (intro shift) (simp_all add: nesting_step_def)
    ultimately show ?thesis using Cons.IH [of "Suc c" "Suc i"] by simp
  next
    case False
    show ?thesis
    proof (cases "closes re regionName l")
      case nc: False
      then have "find_end re regionName (l # ls) i c = find_end re regionName ls (Suc i) c"
        using False by (auto simp: opens_def closes_def Let_def)
      moreover have "?R c i (l # ls) \<longleftrightarrow> ?R c (Suc i) ls"
        using False nc Cons.prems by (intro shift) (simp_all add: nesting_step_def)
      ultimately show ?thesis using Cons.IH [of c "Suc i"] Cons.prems by simp
    next
      case cl: True
      show ?thesis
      proof (cases "c = 1")
        case True
        then have fe: "find_end re regionName (l # ls) i c = Some i"
          using False cl by (auto simp: opens_def closes_def Let_def)
        have step: "?step l = - 1" using False cl by (simp add: nesting_step_def)
        show ?thesis
        proof
          assume "find_end re regionName (l # ls) i c = Some e"
          with fe have "e = i" by simp
          then show "?R c i (l # ls)" using True step by (intro exI [of _ 0]) simp
        next
          assume "?R c i (l # ls)"
          then obtain k where k: "k < length (l # ls)" "e = i + k"
              "\<forall>j<k. int c + sum_list (map ?step (take (Suc j) (l # ls))) \<noteq> 0"
            by blast
          have "k = 0"
          proof (rule ccontr)
            assume "k \<noteq> 0"
            then have "0 < k" by simp
            with k(3) have "int c + sum_list (map ?step (take (Suc 0) (l # ls))) \<noteq> 0" by blast
            then show False using True step by simp
          qed
          with k fe show "find_end re regionName (l # ls) i c = Some e" by simp
        qed
      next
        case c2: False
        with Cons.prems have c: "2 \<le> c" by simp
        then have "find_end re regionName (l # ls) i c = find_end re regionName ls (Suc i) (c - 1)"
          using False cl by (auto simp: opens_def closes_def Let_def)
        moreover have "?R c i (l # ls) \<longleftrightarrow> ?R (c - 1) (Suc i) ls"
          using False cl c by (intro shift) (simp_all add: nesting_step_def)
        ultimately show ?thesis using Cons.IH [of "c - 1" "Suc i"] c by simp
      qed
    qed
  qed
qed


lemma findRegion_Some_iff:
  "findRegion lns regionName = Some (re, s, e) \<longleftrightarrow> region_spec lns regionName re s e"
proof -
  let ?step = "nesting_step re regionName"
  have split: "findRegion lns regionName = Some (re, s, e) \<longleftrightarrow>
      find_start lns 0 regionName = Some (re, s) \<and>
      find_end re regionName (drop s lns) s 1 = Some e"
    by (auto simp: findRegion_def split: option.splits)
  have ends: "find_end re regionName (drop s lns) s 1 = Some e \<longleftrightarrow>
      (s \<le> e \<and> e < length lns \<and> counter_after re regionName lns s e = 0 \<and>
       (\<forall>k. s \<le> k \<and> k < e \<longrightarrow> counter_after re regionName lns s k \<noteq> 0))"
    (is "?L \<longleftrightarrow> ?R")
  proof
    assume ?L
    then obtain k where k: "k < length (drop s lns)" "e = s + k"
        "int 1 + sum_list (map ?step (take (Suc k) (drop s lns))) = 0"
        "\<forall>j<k. int 1 + sum_list (map ?step (take (Suc j) (drop s lns))) \<noteq> 0"
      using find_end_iff [of 1 re regionName "drop s lns" s e] by auto
    have "counter_after re regionName lns s k' \<noteq> 0" if "s \<le> k'" "k' < e" for k'
    proof -
      from that k(2) have "k' - s < k" by simp
      with k(4) have "int 1 + sum_list (map ?step (take (Suc (k' - s)) (drop s lns))) \<noteq> 0"
        by blast
      moreover have "Suc (k' - s) = Suc k' - s" using that by simp
      ultimately show ?thesis by (simp add: counter_after_def)
    qed
    moreover have "counter_after re regionName lns s e = 0"
      using k(2,3) by (simp add: counter_after_def)
    ultimately show ?R using k(1,2) by auto
  next
    assume r: ?R
    define k where "k = e - s"
    from r have "s \<le> e" "e < length lns" by simp_all
    then have e: "e = s + k" "k < length (drop s lns)" by (simp_all add: k_def)
    have "int 1 + sum_list (map ?step (take (Suc k) (drop s lns))) = 0"
      using r e by (simp add: counter_after_def)
    moreover have "\<forall>j<k. int 1 + sum_list (map ?step (take (Suc j) (drop s lns))) \<noteq> 0"
    proof (intro allI impI)
      fix j assume "j < k"
      then have "s \<le> s + j \<and> s + j < e" using e by simp
      with r have "counter_after re regionName lns s (s + j) \<noteq> 0" by blast
      then show "int 1 + sum_list (map ?step (take (Suc j) (drop s lns))) \<noteq> 0"
        by (simp add: counter_after_def)
    qed
    ultimately show ?L
      using find_end_iff [of 1 re regionName "drop s lns" s e] e by auto
  qed
  show ?thesis
    unfolding split ends region_spec_def find_start_iff [of lns 0 regionName re s]
    by auto
qed

text \<open>
  C5: findRegion returns the index after the first start marker (of any dialect) whose
  captured name is the region name, with that dialect, and the index of the line where
  the nesting counter first reaches zero: the counter starts at 1, a start marker of
  the same dialect with the same name adds 1, an end marker of the same dialect with
  the same name or an empty name takes 1 away. When no start marker is found, or the
  counter never reaches zero, the result is "not found".
\<close>

theorem findRegion_spec:
  "(findRegion lns regionName = Some (re, s, e) \<longleftrightarrow> region_spec lns regionName re s e) \<and>
   (findRegion lns regionName = None \<longleftrightarrow> (\<forall>re' s' e'. \<not> region_spec lns regionName re' s' e'))"
proof
  show "findRegion lns regionName = Some (re, s, e) \<longleftrightarrow> region_spec lns regionName re s e"
    by (rule findRegion_Some_iff)
  show "findRegion lns regionName = None \<longleftrightarrow> (\<forall>re' s' e'. \<not> region_spec lns regionName re' s' e')"
  proof (cases "findRegion lns regionName")
    case None
    then show ?thesis using findRegion_Some_iff [of lns regionName] by auto
  next
    case (Some t)
    then show ?thesis using findRegion_Some_iff [of lns regionName] by (cases t) auto
  qed
qed

text \<open>A region nested in itself, closed once by name and once by the empty name.\<close>

definition nested_lines :: "string list" where
  "nested_lines = [''// #region a'', ''// #region a'', ''// #endregion a'', ''// #endregion'', ''z'']"

lemma findRegion_nested_lines:
  "map_option snd (findRegion nested_lines ''a'') = Some (1, 3)"
  by code_simp

theorem findRegion_spec_witness:
  "\<exists>re. findRegion nested_lines ''a'' = Some (re, 1, 3) \<and> region_spec nested_lines ''a'' re 1 3"
proof -
  from findRegion_nested_lines obtain re where "findRegion nested_lines ''a'' = Some (re, 1, 3)"
    by (cases "findRegion nested_lines ''a''") auto
  then show ?thesis using findRegion_spec [of nested_lines "''a''" re 1 3] by blast
qed

section \<open>The matcher on the patterns of the include directive\<close>

declare ms.simps(12,13) [simp del]

lemma seq_Nil: "seq [] = Eps" by (simp add: seq_def)
lemma seq_Cons: "seq (r # rs) = Seq r (seq rs)" by (simp add: seq_def)

lemma ms_Str_append: "ms (Str w) (pre, w @ rest, caps) = [(rev w @ pre, rest, caps)]"
  by simp

lemma ms_Str_mem:
  "s' \<in> set (ms (Str w) (pre, rest, caps)) \<longleftrightarrow>
     (\<exists>r'. rest = w @ r' \<and> s' = (rev w @ pre, r', caps))"
proof -
  have "take (length w) rest = w \<longleftrightarrow> (\<exists>r'. rest = w @ r')"
    by (metis append_eq_conv_conj)
  then show ?thesis by (auto simp: append_eq_conv_conj)
qed

text \<open>The states after \<open>k\<close> characters, the longest run first.\<close>

definition after_chars :: "string \<Rightarrow> string \<Rightarrow> (nat \<Rightarrow> string option) \<Rightarrow> nat \<Rightarrow> mstate" where
  "after_chars pre rest caps k = (rev (take k rest) @ pre, drop k rest, caps)"

lemma star_Cls:
  "length rest \<le> n \<Longrightarrow>
   star n (ms (Cls p)) (pre, rest, caps) =
     map (after_chars pre rest caps) (rev [0..<Suc (length (takeWhile p rest))])"
proof (induction n arbitrary: pre rest)
  case 0
  then show ?case by (simp add: after_chars_def)
next
  case (Suc n)
  show ?case
  proof (cases rest)
    case Nil
    then show ?thesis by (simp add: after_chars_def)
  next
    case (Cons c cs)
    show ?thesis
    proof (cases "p c")
      case False
      then show ?thesis using Cons by (simp add: after_chars_def)
    next
      case True
      from Suc.prems Cons have "length cs \<le> n" by simp
      from Suc.IH [OF this, of "c # pre"]
      have ih: "star n (ms (Cls p)) (c # pre, cs, caps) =
          map (after_chars (c # pre) cs caps) (rev [0..<Suc (length (takeWhile p cs))])" .
      have shift: "after_chars (c # pre) cs caps k = after_chars pre (c # cs) caps (Suc k)" for k
        by (simp add: after_chars_def)
      have "[0..<Suc (Suc m)] = 0 # map Suc [0..<Suc m]" for m
        unfolding map_Suc_upt by (rule upt_conv_Cons) simp
      then have up: "rev [0..<Suc (Suc m)] = rev (map Suc [0..<Suc m]) @ [0]" for m
        by (simp only: rev.simps)
      have "star (Suc n) (ms (Cls p)) (pre, rest, caps) =
          star n (ms (Cls p)) (c # pre, cs, caps) @ [(pre, rest, caps)]"
        using True Cons by (simp add: progress_def)
      also have "\<dots> = map (after_chars pre rest caps) (rev (map Suc [0..<Suc (length (takeWhile p cs))]))
           @ [after_chars pre rest caps 0]"
        unfolding ih using Cons by (simp add: rev_map shift del: upt_Suc) (simp add: after_chars_def)
      also have "\<dots> = map (after_chars pre rest caps) (rev [0..<Suc (Suc (length (takeWhile p cs)))])"
        unfolding up by simp
      finally show ?thesis using True Cons by simp
    qed
  qed
qed

lemma ms_Star_Cls:
  "ms (Star (Cls p)) (pre, rest, caps) =
     map (after_chars pre rest caps) (rev [0..<Suc (length (takeWhile p rest))])"
  by (simp only: ms.simps(12) fst_conv snd_conv star_Cls [OF order_refl])

lemma ms_Star_Cls_mem:
  "s' \<in> set (ms (Star (Cls p)) (pre, rest, caps)) \<longleftrightarrow>
     (\<exists>k\<le>length (takeWhile p rest). s' = after_chars pre rest caps k)"
  unfolding ms_Star_Cls by (auto simp: less_Suc_eq_le simp del: upt_Suc)

lemma ms_Star_Cls_hd:
  "ms (Star (Cls p)) (pre, rest, caps) =
     (rev (takeWhile p rest) @ pre, dropWhile p rest, caps) #
       map (after_chars pre rest caps) (rev [0..<length (takeWhile p rest)])"
proof -
  have "take (length (takeWhile p rest)) rest = takeWhile p rest"
    by (metis append_eq_conv_conj takeWhile_dropWhile_id)
  moreover have "drop (length (takeWhile p rest)) rest = dropWhile p rest"
    by (metis append_eq_conv_conj takeWhile_dropWhile_id)
  ultimately show ?thesis unfolding ms_Star_Cls by (simp add: after_chars_def)
qed


lemma ms_Grp_Star_Cls_mem:
  "s' \<in> set (ms (Grp n (Star (Cls p))) (pre, rest, caps)) \<longleftrightarrow>
     (\<exists>a r'. rest = a @ r' \<and> list_all p a \<and> s' = (rev a @ pre, r', caps(n \<mapsto> a)))"
  (is "?L \<longleftrightarrow> ?R")
proof
  assume ?L
  then obtain k where k: "k \<le> length (takeWhile p rest)"
      "s' = set_group n rest (after_chars pre rest caps k)"
    using ms_Star_Cls_mem [of _ p pre rest caps] by (auto simp del: ms.simps(12))
  have "take k rest = take k (takeWhile p rest)"
    using k(1) by (metis append_eq_conv_conj takeWhile_dropWhile_id take_append
        diff_is_0_eq take_0 append_Nil2)
  then have "list_all p (take k rest)"
    by (metis list_all_iff set_takeWhileD in_set_takeD)
  moreover have "k \<le> length rest"
    using k(1) length_takeWhile_le [of p rest] by simp
  then have "s' = (rev (take k rest) @ pre, drop k rest, caps(n \<mapsto> take k rest))"
    using k(2) by (simp add: set_group_def after_chars_def)
  ultimately show ?R by (intro exI [of _ "take k rest"] exI [of _ "drop k rest"]) simp
next
  assume ?R
  then obtain a r' where a: "rest = a @ r'" "list_all p a" "s' = (rev a @ pre, r', caps(n \<mapsto> a))"
    by blast
  have "takeWhile p rest = a @ takeWhile p r'"
    using a(1,2) by (simp add: list_all_iff)
  then have "length a \<le> length (takeWhile p rest)" by simp
  moreover have "s' = set_group n rest (after_chars pre rest caps (length a))"
    using a by (simp add: set_group_def after_chars_def)
  moreover have "after_chars pre rest caps (length a) \<in> set (ms (Star (Cls p)) (pre, rest, caps))"
    using calculation(1) ms_Star_Cls_mem by blast
  ultimately show ?L by simp
qed

text \<open>The text of a range: \<open>{a,b}\<close>.\<close>

definition range_text :: "string \<Rightarrow> string \<Rightarrow> string" where
  "range_text a b = ''{'' @ a @ '','' @ b @ ''}''"

lemma ms_Seq_mem:
  "s'' \<in> set (ms (Seq a b) s) \<longleftrightarrow> (\<exists>s'\<in>set (ms a s). s'' \<in> set (ms b s'))"
  by auto

lemma ms_Eps_mem: "s' \<in> set (ms Eps s) \<longleftrightarrow> s' = s"
  by auto

lemma ms_Eol_mem: "s' \<in> set (ms Eol (pre, rest, caps)) \<longleftrightarrow> rest = [] \<and> s' = (pre, rest, caps)"
  by auto

lemma ms_rangeRE_mem:
  "s' \<in> set (ms rangeRE (pre, rest, caps)) \<longleftrightarrow>
     (\<exists>a b. list_all is_digit a \<and> list_all is_digit b \<and> rest = range_text a b \<and>
        s' = (rev rest @ pre, [], caps(1 \<mapsto> a, 2 \<mapsto> b)))"
  (is "?L \<longleftrightarrow> ?R")
proof
  assume ?L
  then obtain s1 s2 s3 s4 s5 where
      s1: "s1 \<in> set (ms (Str ''{'') (pre, rest, caps))" and
      s2: "s2 \<in> set (ms (Grp 1 (Star (Cls is_digit))) s1)" and
      s3: "s3 \<in> set (ms (Str '','') s2)" and
      s4: "s4 \<in> set (ms (Grp 2 (Star (Cls is_digit))) s3)" and
      s5: "s5 \<in> set (ms (Str ''}'') s4)" and
      s6: "s' \<in> set (ms Eol s5)"
    unfolding rangeRE_def seq_Cons seq_Nil digit_def ms_Seq_mem ms_Eps_mem by blast
  from s1 have "\<exists>r'. rest = ''{'' @ r' \<and> s1 = (rev ''{'' @ pre, r', caps)"
    unfolding ms_Str_mem .
  then obtain r1 where r1: "rest = ''{'' @ r1" "s1 = (rev ''{'' @ pre, r1, caps)"
    by (elim exE conjE)
  from s2 have "\<exists>a r'. r1 = a @ r' \<and> list_all is_digit a \<and>
      s2 = (rev a @ rev ''{'' @ pre, r', caps(1 \<mapsto> a))"
    unfolding r1(2) ms_Grp_Star_Cls_mem .
  then obtain a r2 where r2: "r1 = a @ r2" "list_all is_digit a"
      "s2 = (rev a @ rev ''{'' @ pre, r2, caps(1 \<mapsto> a))"
    by (elim exE conjE)
  from s3 have "\<exists>r'. r2 = '','' @ r' \<and>
      s3 = (rev '','' @ rev a @ rev ''{'' @ pre, r', caps(1 \<mapsto> a))"
    unfolding r2(3) ms_Str_mem .
  then obtain r3 where r3: "r2 = '','' @ r3"
      "s3 = (rev '','' @ rev a @ rev ''{'' @ pre, r3, caps(1 \<mapsto> a))"
    by (elim exE conjE)
  from s4 have "\<exists>b r'. r3 = b @ r' \<and> list_all is_digit b \<and>
      s4 = (rev b @ rev '','' @ rev a @ rev ''{'' @ pre, r', caps(1 \<mapsto> a, 2 \<mapsto> b))"
    unfolding r3(2) ms_Grp_Star_Cls_mem .
  then obtain b r4 where r4: "r3 = b @ r4" "list_all is_digit b"
      "s4 = (rev b @ rev '','' @ rev a @ rev ''{'' @ pre, r4, caps(1 \<mapsto> a, 2 \<mapsto> b))"
    by (elim exE conjE)
  from s5 have "\<exists>r'. r4 = ''}'' @ r' \<and>
      s5 = (rev ''}'' @ rev b @ rev '','' @ rev a @ rev ''{'' @ pre, r', caps(1 \<mapsto> a, 2 \<mapsto> b))"
    unfolding r4(3) ms_Str_mem .
  then obtain r5 where r5: "r4 = ''}'' @ r5"
      "s5 = (rev ''}'' @ rev b @ rev '','' @ rev a @ rev ''{'' @ pre, r5, caps(1 \<mapsto> a, 2 \<mapsto> b))"
    by (elim exE conjE)
  from s6 have r6: "r5 = []" "s' = s5"
    unfolding r5(2) ms_Eol_mem by simp_all
  have "rest = range_text a b"
    using r1 r2 r3 r4 r5 r6 by (simp add: range_text_def)
  moreover have "s' = (rev rest @ pre, [], caps(1 \<mapsto> a, 2 \<mapsto> b))"
    using r1 r2 r3 r4 r5 r6 by simp
  ultimately show ?R using r2(2) r4(2) by blast
next
  assume ?R
  then obtain a b where ab: "list_all is_digit a" "list_all is_digit b" "rest = range_text a b"
      "s' = (rev rest @ pre, [], caps(1 \<mapsto> a, 2 \<mapsto> b))"
    by blast
  let ?s1 = "(rev ''{'' @ pre, a @ '','' @ b @ ''}'', caps)"
  let ?s2 = "(rev a @ rev ''{'' @ pre, '','' @ b @ ''}'', caps(1 \<mapsto> a))"
  let ?s3 = "(rev '','' @ rev a @ rev ''{'' @ pre, b @ ''}'', caps(1 \<mapsto> a))"
  let ?s4 = "(rev b @ rev '','' @ rev a @ rev ''{'' @ pre, ''}'', caps(1 \<mapsto> a, 2 \<mapsto> b))"
  let ?s5 = "(rev ''}'' @ rev b @ rev '','' @ rev a @ rev ''{'' @ pre, [], caps(1 \<mapsto> a, 2 \<mapsto> b))"
  have "?s1 \<in> set (ms (Str ''{'') (pre, rest, caps))"
    unfolding ms_Str_mem using ab(3) by (simp add: range_text_def)
  moreover have "?s2 \<in> set (ms (Grp 1 (Star (Cls is_digit))) ?s1)"
    unfolding ms_Grp_Star_Cls_mem using ab(1) by (intro exI [of _ a] exI [of _ "'','' @ b @ ''}''"]) simp
  moreover have "?s3 \<in> set (ms (Str '','') ?s2)"
    unfolding ms_Str_mem by simp
  moreover have "?s4 \<in> set (ms (Grp 2 (Star (Cls is_digit))) ?s3)"
    unfolding ms_Grp_Star_Cls_mem using ab(2) by (intro exI [of _ b] exI [of _ "''}''"]) simp
  moreover have "?s5 \<in> set (ms (Str ''}'') ?s4)"
    unfolding ms_Str_mem by simp
  moreover have "?s5 \<in> set (ms Eol ?s5)"
    unfolding ms_Eol_mem by simp
  moreover have "s' = ?s5" using ab(3,4) by (simp add: range_text_def)
  ultimately show ?L
    unfolding rangeRE_def seq_Cons seq_Nil digit_def ms_Seq_mem ms_Eps_mem by blast
qed

text \<open>The state of the matcher at position \<open>k\<close> of \<open>rest\<close>.\<close>

definition at_pos :: "string \<Rightarrow> string \<Rightarrow> nat \<Rightarrow> mstate" where
  "at_pos pre rest k = (rev (take k rest) @ pre, drop k rest, Map.empty)"

lemma search_here:
  "ms re (pre, rest, Map.empty) = (pre', rest', caps) # xs \<Longrightarrow>
   search re pre rest =
     Some \<lparr>index = length pre, whole = take (length rest - length rest') rest, groups = caps\<rparr>"
  by (cases rest) simp_all

lemma search_first:
  "k \<le> length rest \<Longrightarrow>
   \<forall>j<k. ms re (at_pos pre rest j) = [] \<Longrightarrow>
   ms re (at_pos pre rest k) = (pre', rest', caps) # xs \<Longrightarrow>
   search re pre rest =
     Some \<lparr>index = length pre + k,
           whole = take (length rest - k - length rest') (drop k rest), groups = caps\<rparr>"
proof (induction k arbitrary: pre rest)
  case 0
  then show ?case using search_here [of re pre rest pre' rest' caps xs] by (simp add: at_pos_def)
next
  case (Suc k)
  from Suc.prems(1) obtain c cs where rest: "rest = c # cs" by (cases rest) auto
  from Suc.prems(2) have "ms re (at_pos pre rest 0) = []" by blast
  then have skip: "search re pre rest = search re (c # pre) cs"
    using rest by (simp add: at_pos_def)
  have shift: "at_pos pre rest (Suc j) = at_pos (c # pre) cs j" for j
    using rest by (simp add: at_pos_def)
  have "\<forall>j<k. ms re (at_pos (c # pre) cs j) = []"
  proof (intro allI impI)
    fix j assume "j < k"
    then have "Suc j < Suc k" by simp
    with Suc.prems(2) have "ms re (at_pos pre rest (Suc j)) = []" by blast
    then show "ms re (at_pos (c # pre) cs j) = []" by (simp only: shift)
  qed
  moreover have "ms re (at_pos (c # pre) cs k) = (pre', rest', caps) # xs"
    using Suc.prems(3) shift by simp
  moreover have "k \<le> length cs" using Suc.prems(1) rest by simp
  ultimately show ?case
    using Suc.IH [of cs "c # pre"] skip rest by simp
qed

lemma search_None:
  "\<forall>j\<le>length rest. ms re (at_pos pre rest j) = [] \<Longrightarrow> search re pre rest = None"
proof (induction rest arbitrary: pre)
  case Nil
  then show ?case by (simp add: at_pos_def)
next
  case (Cons c cs)
  have shift: "at_pos pre (c # cs) (Suc j) = at_pos (c # pre) cs j" for j
    by (simp add: at_pos_def)
  from Cons.prems have "ms re (at_pos pre (c # cs) 0) = []" by blast
  then have "search re pre (c # cs) = search re (c # pre) cs"
    by (simp add: at_pos_def)
  moreover have "\<forall>j\<le>length cs. ms re (at_pos (c # pre) cs j) = []"
  proof (intro allI impI)
    fix j assume "j \<le> length cs"
    then have "Suc j \<le> length (c # cs)" by simp
    with Cons.prems have "ms re (at_pos pre (c # cs) (Suc j)) = []" by blast
    then show "ms re (at_pos (c # pre) cs j) = []" by (simp only: shift)
  qed
  ultimately show ?case using Cons.IH [of "c # pre"] by simp
qed

lemma is_digit_simps: "\<not> is_digit CHR ''{''" "\<not> is_digit CHR '',''" "\<not> is_digit CHR ''#''" "\<not> is_digit CHR ''}''"
  by (simp_all add: is_digit_def)

lemma digit_not_brace:
  "list_all is_digit a \<Longrightarrow> CHR ''{'' \<notin> set a \<and> CHR '','' \<notin> set a \<and> CHR ''#'' \<notin> set a"
  using is_digit_simps unfolding list_all_iff by blast

lemma range_text_inj:
  assumes "list_all is_digit a" "list_all is_digit b" "range_text a b = range_text a' b'"
  shows "a = a' \<and> b = b'"
proof -
  have eq: "a @ CHR '','' # (b @ ''}'') = a' @ CHR '','' # (b' @ ''}'')"
    using assms(3) by (simp only: range_text_def append_Cons append_Nil list.inject simp_thms)
  have c: "CHR '','' \<notin> set a" "CHR '','' \<notin> set (b @ ''}'')"
    using assms(1,2) digit_not_brace by auto
  have "a = a' \<and> b @ ''}'' = b' @ ''}''"
    by (rule iffD1 [OF append_Cons_eq_iff [OF c] eq])
  then show ?thesis by simp
qed

lemma range_text_no_prefix:
  assumes "list_all is_digit a'" "list_all is_digit b'" "q @ range_text a b = range_text a' b'"
  shows "q = []"
proof (rule ccontr)
  assume "q \<noteq> []"
  then obtain c q' where q: "q = c # q'" by (cases q) auto
  with assms(3) have "q' @ range_text a b = a' @ '','' @ b' @ ''}''"
    by (simp add: range_text_def)
  moreover have "CHR ''{'' \<in> set (q' @ range_text a b)"
    by (simp add: range_text_def)
  ultimately have "CHR ''{'' \<in> set (a' @ '','' @ b' @ ''}'')"
    by simp
  then show False
    using digit_not_brace [OF assms(1)] digit_not_brace [OF assms(2)] by auto
qed

lemma ms_rangeRE_here:
  assumes "list_all is_digit a" "list_all is_digit b"
  shows "\<exists>xs. ms rangeRE (pre, range_text a b, caps) =
           (rev (range_text a b) @ pre, [], caps(1 \<mapsto> a, 2 \<mapsto> b)) # xs"
proof -
  let ?st = "(pre, range_text a b, caps)"
  let ?fin = "(rev (range_text a b) @ pre, [], caps(1 \<mapsto> a, 2 \<mapsto> b))"
  have "?fin \<in> set (ms rangeRE ?st)"
    unfolding ms_rangeRE_mem using assms by blast
  then obtain y ys where ys: "ms rangeRE ?st = y # ys"
    by (cases "ms rangeRE ?st") auto
  then have "y \<in> set (ms rangeRE ?st)" by simp
  then obtain a' b' where ab: "list_all is_digit a'" "list_all is_digit b'"
      "range_text a b = range_text a' b'"
      "y = (rev (range_text a b) @ pre, [], caps(1 \<mapsto> a', 2 \<mapsto> b'))"
    unfolding ms_rangeRE_mem by blast
  from range_text_inj [OF assms(1) assms(2) ab(3)] have "a' = a" "b' = b" by simp_all
  with ab(4) ys show ?thesis by simp
qed

lemma ms_rangeRE_Nil:
  "\<not> (\<exists>a b. list_all is_digit a \<and> list_all is_digit b \<and> rest = range_text a b) \<Longrightarrow>
   ms rangeRE (pre, rest, caps) = []"
proof (rule ccontr)
  assume no: "\<not> (\<exists>a b. list_all is_digit a \<and> list_all is_digit b \<and> rest = range_text a b)"
  assume "ms rangeRE (pre, rest, caps) \<noteq> []"
  then obtain y ys where "ms rangeRE (pre, rest, caps) = y # ys"
    by (cases "ms rangeRE (pre, rest, caps)") auto
  then have "y \<in> set (ms rangeRE (pre, rest, caps))" by simp
  then show False unfolding ms_rangeRE_mem using no by blast
qed

lemma js_exec_rangeRE:
  assumes "list_all is_digit a" "list_all is_digit b"
  shows "\<exists>r. js_exec rangeRE (p @ range_text a b) = Some r \<and> index r = length p \<and>
           whole r = range_text a b \<and> groups r 1 = Some a \<and> groups r 2 = Some b"
proof -
  let ?s = "p @ range_text a b"
  have none: "\<forall>j<length p. ms rangeRE (at_pos [] ?s j) = []"
  proof (intro allI impI)
    fix j assume j: "j < length p"
    have "\<not> (\<exists>a' b'. list_all is_digit a' \<and> list_all is_digit b' \<and> drop j ?s = range_text a' b')"
    proof
      assume "\<exists>a' b'. list_all is_digit a' \<and> list_all is_digit b' \<and> drop j ?s = range_text a' b'"
      then obtain a' b' where ab: "list_all is_digit a'" "list_all is_digit b'"
          "drop j ?s = range_text a' b'" by blast
      have "drop j ?s = drop j p @ range_text a b" using j by simp
      with ab(3) have "drop j p @ range_text a b = range_text a' b'" by simp
      from range_text_no_prefix [OF ab(1,2) this] show False using j by simp
    qed
    then show "ms rangeRE (at_pos [] ?s j) = []"
      unfolding at_pos_def by (rule ms_rangeRE_Nil)
  qed
  from ms_rangeRE_here [OF assms, of "rev p" Map.empty] obtain xs where
    "ms rangeRE (at_pos [] ?s (length p)) =
       (rev (range_text a b) @ rev p, [], Map.empty(1 \<mapsto> a, 2 \<mapsto> b)) # xs"
    by (auto simp: at_pos_def)
  from search_first [OF _ none this]
  show ?thesis by (simp add: js_exec_def)
qed

lemma js_exec_rangeRE_None:
  assumes "\<not> (\<exists>q a b. list_all is_digit a \<and> list_all is_digit b \<and> s = q @ range_text a b)"
  shows "js_exec rangeRE s = None"
proof -
  have "\<forall>j\<le>length s. ms rangeRE (at_pos [] s j) = []"
  proof (intro allI impI)
    fix j assume "j \<le> length s"
    have "\<not> (\<exists>a b. list_all is_digit a \<and> list_all is_digit b \<and> drop j s = range_text a b)"
    proof
      assume "\<exists>a b. list_all is_digit a \<and> list_all is_digit b \<and> drop j s = range_text a b"
      then obtain a b where "list_all is_digit a" "list_all is_digit b" "drop j s = range_text a b"
        by blast
      moreover from this(3) have "s = take j s @ range_text a b"
        using append_take_drop_id [of j s] by simp
      ultimately show False using assms by blast
    qed
    then show "ms rangeRE (at_pos [] s j) = []"
      unfolding at_pos_def by (rule ms_rangeRE_Nil)
  qed
  then show ?thesis unfolding js_exec_def by (rule search_None)
qed

text \<open>The characters of a region token after its \<open>#\<close>: \<open>[^\s{]\<close>.\<close>

definition region_char :: "char \<Rightarrow> bool" where
  "region_char c = (\<not> is_space c \<and> c \<noteq> CHR ''{'')"

lemma regionRE_alt: "regionRE = Grp 1 (Seq (Str ''#'') (Seq (Seq (Cls region_char) (Star (Cls region_char))) Eps))"
proof -
  have "region_char = (\<lambda>c. \<not> is_space c \<and> c \<noteq> CHR ''{'')"
    by (rule ext) (simp add: region_char_def)
  then show ?thesis by (simp add: regionRE_def seq_def plus_def)
qed

lemma ms_regionRE_hd:
  assumes "region_char c"
  shows "\<exists>xs. ms regionRE (pre, CHR ''#'' # c # cs, caps) =
           (rev (CHR ''#'' # c # takeWhile region_char cs) @ pre, dropWhile region_char cs,
            caps(1 \<mapsto> CHR ''#'' # c # takeWhile region_char cs)) # xs"
proof -
  have len: "Suc (Suc (length cs)) - length (dropWhile region_char cs) =
      Suc (Suc (length (takeWhile region_char cs)))"
  proof -
    have "length (takeWhile region_char cs) + length (dropWhile region_char cs) = length cs"
      by (metis length_append takeWhile_dropWhile_id)
    then show ?thesis by simp
  qed
  have tk: "take (length (takeWhile region_char cs)) cs = takeWhile region_char cs"
    by (metis append_eq_conv_conj takeWhile_dropWhile_id)
  show ?thesis
    unfolding regionRE_alt using assms
    by (simp add: ms_Star_Cls_hd set_group_def len tk del: upt_Suc)
qed

lemma ms_regionRE_Nil:
  assumes "\<not> (\<exists>c cs. rest = CHR ''#'' # c # cs \<and> region_char c)"
  shows "ms regionRE (pre, rest, caps) = []"
proof (cases rest)
  case Nil
  then show ?thesis unfolding regionRE_alt by simp
next
  case (Cons d ds)
  show ?thesis
  proof (cases "d = CHR ''#''")
    case False
    then show ?thesis unfolding regionRE_alt using Cons by simp
  next
    case True
    show ?thesis
    proof (cases ds)
      case Nil
      then show ?thesis unfolding regionRE_alt using Cons True by simp
    next
      case (Cons c cs)
      with assms True \<open>rest = d # ds\<close> have "\<not> region_char c" by simp
      then show ?thesis unfolding regionRE_alt using Cons True \<open>rest = d # ds\<close> by simp
    qed
  qed
qed

lemma js_exec_regionRE:
  assumes "CHR ''#'' \<notin> set p" "name \<noteq> []" "list_all region_char name"
      "r' = [] \<or> \<not> region_char (hd r')"
  shows "\<exists>r. js_exec regionRE (p @ ''#'' @ name @ r') = Some r \<and> index r = length p \<and>
           whole r = ''#'' @ name \<and> groups r 1 = Some (''#'' @ name)"
proof -
  let ?s = "p @ ''#'' @ name @ r'"
  from assms(2) obtain c n' where name: "name = c # n'" by (cases name) auto
  with assms(3) have c: "region_char c" and n': "list_all region_char n'" by simp_all
  have tw: "takeWhile region_char (n' @ r') = n'"
    using n' assms(4) by (cases r') (simp_all add: list_all_iff)
  then have dw: "dropWhile region_char (n' @ r') = r'"
    by (metis append_eq_conv_conj takeWhile_dropWhile_id)
  have none: "\<forall>j<length p. ms regionRE (at_pos [] ?s j) = []"
  proof (intro allI impI)
    fix j assume j: "j < length p"
    then have "drop j ?s = p ! j # drop (Suc j) p @ ''#'' @ name @ r'"
      by (simp add: Cons_nth_drop_Suc)
    moreover have "p ! j \<noteq> CHR ''#''" using assms(1) j by (metis nth_mem)
    ultimately have "\<not> (\<exists>c cs. drop j ?s = CHR ''#'' # c # cs \<and> region_char c)" by simp
    then show "ms regionRE (at_pos [] ?s j) = []"
      unfolding at_pos_def by (rule ms_regionRE_Nil)
  qed
  from ms_regionRE_hd [OF c, of "rev p" "n' @ r'" Map.empty] obtain xs where
    "ms regionRE (at_pos [] ?s (length p)) =
       (rev (CHR ''#'' # c # n') @ rev p, r', Map.empty(1 \<mapsto> CHR ''#'' # c # n')) # xs"
    by (auto simp: at_pos_def name tw dw)
  from search_first [OF _ none this]
  show ?thesis by (simp add: js_exec_def name)
qed

lemma js_exec_regionRE_None:
  assumes "CHR ''#'' \<notin> set s"
  shows "js_exec regionRE s = None"
proof -
  have "\<forall>j\<le>length s. ms regionRE (at_pos [] s j) = []"
  proof (intro allI impI)
    fix j assume "j \<le> length s"
    have "CHR ''#'' \<notin> set (drop j s)" using assms by (meson in_set_dropD)
    then have "\<not> (\<exists>c cs. drop j s = CHR ''#'' # c # cs \<and> region_char c)" by auto
    then show "ms regionRE (at_pos [] s j) = []"
      unfolding at_pos_def by (rule ms_regionRE_Nil)
  qed
  then show ?thesis unfolding js_exec_def by (rule search_None)
qed

section \<open>Slices, line numbers and the meta of an include payload\<close>

lemma js_slice_range: "js_slice xs (Some (int i)) (Some (int j)) = drop i (take j xs)"
  by (simp add: js_slice_def rel_index_def Let_def drop_take min_def)

lemma js_slice_to: "js_slice xs None (Some (int j)) = take j xs"
  by (simp add: js_slice_def rel_index_def Let_def min_def)

lemma js_slice_all: "js_slice xs None None = xs"
  by (simp add: js_slice_def)

lemma js_slice_strip:
  assumes "0 < n"
  shows "js_slice xs (Some 0) (Some (- int n)) = take (length xs - n) xs"
proof -
  have "nat (max (int (length xs) - int n) 0) = length xs - n"
    by (simp add: max_def nat_diff_distrib')
  then show ?thesis using assms by (simp add: js_slice_def rel_index_def Let_def)
qed

text \<open>The number a string of decimal digits stands for.\<close>

definition line_no :: "string \<Rightarrow> nat" where
  "line_no ds = foldl (\<lambda>n c. 10 * n + (of_char c - 48)) 0 ds"

lemma digit_val_nat: "is_digit c \<Longrightarrow> digit_val c = int (of_char c - 48)"
  by (auto simp: is_digit_def digit_val_def)

lemma foldl_digits:
  "list_all is_digit ds \<Longrightarrow>
   foldl (\<lambda>a c. 10 * a + digit_val c) (int k) ds =
     int (foldl (\<lambda>n c. 10 * n + (of_char c - 48)) k ds)"
proof (induction ds arbitrary: k)
  case Nil
  then show ?case by simp
next
  case (Cons c ds)
  then have "is_digit c" "list_all is_digit ds" by simp_all
  then show ?case
    using Cons.IH [of "10 * k + (of_char c - 48)"] by (simp add: digit_val_nat)
qed

lemma parseInt_digits:
  assumes "list_all is_digit ds" "ds \<noteq> []"
  shows "parseInt ds = Some (int (line_no ds))"
proof -
  have "takeWhile is_digit ds = ds" using assms(1) by (simp add: list_all_iff)
  moreover obtain c cs where "ds = c # cs" using assms(2) by (cases ds) auto
  ultimately show ?thesis
    using foldl_digits [OF assms(1), of 0] by (simp add: parseInt_def line_no_def)
qed

lemma line_no_Nil: "line_no [] = 0"
  by (simp add: line_no_def)

text \<open>
  The lines \<open>A\<close> to \<open>B\<close> of a text, counted from 1, both included; \<open>A = 0\<close> stands
  for an absent start and \<open>B = None\<close> for an absent end.
\<close>

definition lines_from_to :: "nat \<Rightarrow> nat option \<Rightarrow> string list \<Rightarrow> string list" where
  "lines_from_to A B lns = drop (A - 1) (case B of None \<Rightarrow> lns | Some n \<Rightarrow> take n lns)"

definition end_no :: "string \<Rightarrow> nat option" where
  "end_no b = (if b = [] then None else Some (line_no b))"

lemma select_range_digits:
  assumes "list_all is_digit a" "list_all is_digit b" "a \<noteq> [] \<longrightarrow> 1 \<le> line_no a"
  shows "select_range a b content =
           js_join [NL] (lines_from_to (line_no a) (end_no b) (split_lines content))"
proof -
  have start: "a \<noteq> [] \<Longrightarrow> to_index (map_option (\<lambda>n. n - 1) (parseInt a)) = int (line_no a - 1)"
    using assms(1,3) by (simp add: parseInt_digits to_index_def of_nat_diff)
  have fin: "b \<noteq> [] \<Longrightarrow> to_index (parseInt b) = int (line_no b)"
    using assms(2) by (simp add: parseInt_digits to_index_def)
  show ?thesis
    by (cases "a = []"; cases "b = []")
       (simp_all add: select_range_def start fin lines_from_to_def end_no_def line_no_Nil Let_def
          js_slice_range js_slice_to js_slice_from js_slice_all)
qed


lemma region_char_simps: "\<not> region_char CHR ''{''" "region_char CHR ''#''" "region_char CHR ''}''"
  by (simp_all add: region_char_def is_space_def)

lemma range_text_no_hash:
  "list_all is_digit a \<Longrightarrow> list_all is_digit b \<Longrightarrow> CHR ''#'' \<notin> set (range_text a b)"
  using digit_not_brace [of a] digit_not_brace [of b] by (simp add: range_text_def)

lemma region_token_no_range:
  assumes "list_all region_char name" "list_all is_digit a" "list_all is_digit b"
  shows "p @ ''#'' @ name \<noteq> q @ range_text a b"
proof
  assume "p @ ''#'' @ name = q @ range_text a b"
  then obtain us where "(p = q @ us \<and> us @ ''#'' @ name = range_text a b) \<or>
      (p @ us = q \<and> ''#'' @ name = us @ range_text a b)"
    unfolding append_eq_append_conv2 by blast
  then show False
  proof
    assume "p = q @ us \<and> us @ ''#'' @ name = range_text a b"
    then have "CHR ''#'' \<in> set (range_text a b)"
      by (metis in_set_conv_decomp append_Cons append_Nil)
    then show False using range_text_no_hash [OF assms(2,3)] by simp
  next
    assume a: "p @ us = q \<and> ''#'' @ name = us @ range_text a b"
    show False
    proof (cases us)
      case Nil
      with a show False by (simp add: range_text_def)
    next
      case (Cons u us')
      with a have "name = us' @ range_text a b" by simp
      then have "CHR ''{'' \<in> set name" by (simp add: range_text_def)
      then show False using assms(1) region_char_simps(1) by (auto simp: list_all_iff)
    qed
  qed
qed

text \<open>A payload with no range at its end.\<close>

definition no_range :: "string \<Rightarrow> bool" where
  "no_range s = (\<not> (\<exists>q a b. list_all is_digit a \<and> list_all is_digit b \<and> s = q @ range_text a b))"

lemma matched_length_Some: "matched_length (Some r) = length (whole r)"
  by (simp add: matched_length_def)

lemma matched_length_None: "matched_length None = 0"
  by (simp add: matched_length_def)

lemma range_text_length: "length (range_text a b) = length a + length b + 3"
  by (simp add: range_text_def)

lemma strip_meta_take:
  assumes "js_exec regionRE m1 = rg" "js_exec rangeRE m1 = rn" "rg \<noteq> None \<or> rn \<noteq> None"
      "matched_length rg + matched_length rn = n" "0 < n"
  shows "strip_meta m1 = take (length m1 - n) m1"
proof -
  have "strip_meta m1 = js_slice m1 (Some 0) (Some (- int n))"
    using assms(1-4) by (simp add: strip_meta_def Let_def)
  then show ?thesis using assms(5) by (simp only: js_slice_strip [OF assms(5)])
qed

lemma strip_meta_region_range:
  assumes "CHR ''#'' \<notin> set p" "name \<noteq> []" "list_all region_char name"
      "list_all is_digit a" "list_all is_digit b"
  shows "strip_meta (p @ ''#'' @ name @ range_text a b) = p"
proof -
  have "\<not> region_char (hd (range_text a b))"
    by (simp add: range_text_def region_char_simps)
  from js_exec_regionRE [OF assms(1-3), of "range_text a b"] this
  obtain r where r: "js_exec regionRE (p @ ''#'' @ name @ range_text a b) = Some r"
      "whole r = ''#'' @ name" by blast
  from js_exec_rangeRE [OF assms(4,5), of "p @ ''#'' @ name"]
  obtain g where g: "js_exec rangeRE (p @ ''#'' @ name @ range_text a b) = Some g"
      "whole g = range_text a b" by auto
  have "strip_meta (p @ ''#'' @ name @ range_text a b) =
      take (length (p @ ''#'' @ name @ range_text a b) - (length (''#'' @ name) + length (range_text a b)))
        (p @ ''#'' @ name @ range_text a b)"
    using r g by (intro strip_meta_take [OF r(1) g(1)]) (simp_all add: matched_length_def)
  then show ?thesis by simp
qed

lemma strip_meta_region:
  assumes "CHR ''#'' \<notin> set p" "name \<noteq> []" "list_all region_char name"
  shows "strip_meta (p @ ''#'' @ name) = p"
proof -
  from js_exec_regionRE [OF assms, of "[]"]
  obtain r where r: "js_exec regionRE (p @ ''#'' @ name) = Some r" "whole r = ''#'' @ name"
    by auto
  have n: "js_exec rangeRE (p @ ''#'' @ name) = None"
    using region_token_no_range [OF assms(3)] by (intro js_exec_rangeRE_None) blast
  have "strip_meta (p @ ''#'' @ name) =
      take (length (p @ ''#'' @ name) - length (''#'' @ name)) (p @ ''#'' @ name)"
    using r by (intro strip_meta_take [OF r(1) n]) (simp_all add: matched_length_def)
  then show ?thesis by simp
qed

lemma strip_meta_range:
  assumes "CHR ''#'' \<notin> set p" "list_all is_digit a" "list_all is_digit b"
  shows "strip_meta (p @ range_text a b) = p"
proof -
  from js_exec_rangeRE [OF assms(2,3), of p]
  obtain g where g: "js_exec rangeRE (p @ range_text a b) = Some g" "whole g = range_text a b"
    by auto
  have n: "js_exec regionRE (p @ range_text a b) = None"
    using assms(1) range_text_no_hash [OF assms(2,3)] by (intro js_exec_regionRE_None) simp
  have "strip_meta (p @ range_text a b) =
      take (length (p @ range_text a b) - length (range_text a b)) (p @ range_text a b)"
    using g by (intro strip_meta_take [OF n g(1)])
      (simp_all add: matched_length_def range_text_length)
  then show ?thesis by simp
qed

lemma strip_meta_plain:
  assumes "CHR ''#'' \<notin> set p" "no_range p"
  shows "strip_meta p = p"
proof -
  have "js_exec regionRE p = None" using assms(1) by (rule js_exec_regionRE_None)
  moreover have "js_exec rangeRE p = None"
    using assms(2) unfolding no_range_def by (rule js_exec_rangeRE_None)
  ultimately show ?thesis by (simp add: strip_meta_def)
qed


text \<open>The state after the path of a file has been recorded.\<close>

definition record_path :: "string \<Rightarrow> pstate \<Rightarrow> pstate" where
  "record_path path st = st\<lparr>include_list := include_list st @ [path]\<rparr>"

text \<open>The message of \<open>console.warn\<close> for a region that is not found.\<close>

definition region_warning :: "string \<Rightarrow> string \<Rightarrow> pstate \<Rightarrow> pstate" where
  "region_warning regionName path st =
     st\<lparr>console_warn := console_warn st @
           [''[remark-include] Region '' @ [CHR 0x27] @ regionName @ [CHR 0x27] @
            '' not found in '' @ path]\<rparr>"

section \<open>The replacer of processIncludes on a payload with meta\<close>

lemma includeCallback_unfold:
  assumes "m1 \<noteq> []" "js_exec regionRE m1 = rg" "js_exec rangeRE m1 = rn"
      "rg \<noteq> None \<or> rn \<noteq> None" "strip_meta m1 = q"
      "existsSync E (includePath E fp q)" "readFileSync E (includePath E fp q) = Some content"
  shows "includeCallback rec E fp m m1 st =
           (let (c1, st1) =
                  (case rg of
                     Some r \<Rightarrow> select_region (whole r) (includePath E fp q) content st
                   | None \<Rightarrow> (content, st));
                c2 = (case rn of
                        Some r \<Rightarrow> select_range (or_empty (groups r 1)) (or_empty (groups r 2)) c1
                      | None \<Rightarrow> c1)
            in rec c2 (record_path (includePath E fp q) st1))"
  unfolding includeCallback_def using assms
  by (auto simp: Let_def record_path_def split: prod.splits)

lemma js_slice_from1: "js_slice xs (Some 1) None = drop 1 xs"
  using js_slice_from [of xs 1] by simp

lemma select_region_eq:
  "select_region (CHR ''#'' # name) path content st =
     (case findRegion (split_lines content) name of
        Some (re, s, e) \<Rightarrow> (js_join [NL] (drop s (take e (split_lines content))), st)
      | None \<Rightarrow> (content, region_warning (CHR ''#'' # name) path st))"
  by (simp add: select_region_def region_warning_def js_slice_from1 js_slice_range Let_def
      split: option.splits)

lemma include_range_only:
  assumes "CHR ''#'' \<notin> set p" "list_all is_digit a" "list_all is_digit b"
      "existsSync E (includePath E fp p)" "readFileSync E (includePath E fp p) = Some content"
  shows "includeCallback rec E fp m (p @ range_text a b) st =
           rec (select_range a b content) (record_path (includePath E fp p) st)"
proof -
  from js_exec_rangeRE [OF assms(2,3), of p]
  obtain g where g: "js_exec rangeRE (p @ range_text a b) = Some g"
      "groups g 1 = Some a" "groups g 2 = Some b"
    by auto
  have n: "js_exec regionRE (p @ range_text a b) = None"
    using assms(1) range_text_no_hash [OF assms(2,3)] by (intro js_exec_regionRE_None) simp
  have ne: "p @ range_text a b \<noteq> []" by (simp add: range_text_def)
  have "includeCallback rec E fp m (p @ range_text a b) st =
      (let (c1, st1) = (case None :: rmatch option of
                     Some r \<Rightarrow> select_region (whole r) (includePath E fp p) content st
                   | None \<Rightarrow> (content, st));
           c2 = (case Some g of
                        Some r \<Rightarrow> select_range (or_empty (groups r 1)) (or_empty (groups r 2)) c1
                      | None \<Rightarrow> c1)
       in rec c2 (record_path (includePath E fp p) st1))"
    by (rule includeCallback_unfold [OF ne n g(1) _ strip_meta_range [OF assms(1-3)] assms(4,5)])
       simp
  then show ?thesis using g(2,3) by (simp add: or_empty_def)
qed

lemma include_region_range:
  assumes "CHR ''#'' \<notin> set p" "name \<noteq> []" "list_all region_char name"
      "list_all is_digit a" "list_all is_digit b"
      "existsSync E (includePath E fp p)" "readFileSync E (includePath E fp p) = Some content"
  shows "includeCallback rec E fp m (p @ ''#'' @ name @ range_text a b) st =
           (case findRegion (split_lines content) name of
              Some (re, s, e) \<Rightarrow>
                rec (select_range a b (js_join [NL] (drop s (take e (split_lines content)))))
                  (record_path (includePath E fp p) st)
            | None \<Rightarrow>
                rec (select_range a b content)
                  (record_path (includePath E fp p)
                     (region_warning (''#'' @ name) (includePath E fp p) st)))"
proof -
  let ?m1 = "p @ ''#'' @ name @ range_text a b"
  have "\<not> region_char (hd (range_text a b))"
    by (simp add: range_text_def region_char_simps)
  from js_exec_regionRE [OF assms(1-3), of "range_text a b"] this
  obtain r where r: "js_exec regionRE ?m1 = Some r" "whole r = ''#'' @ name" by blast
  from js_exec_rangeRE [OF assms(4,5), of "p @ ''#'' @ name"]
  obtain g where g: "js_exec rangeRE ?m1 = Some g" "groups g 1 = Some a" "groups g 2 = Some b"
    by auto
  have ne: "?m1 \<noteq> []" by simp
  have "includeCallback rec E fp m ?m1 st =
      (let (c1, st1) = (case Some r of
                     Some r \<Rightarrow> select_region (whole r) (includePath E fp p) content st
                   | None \<Rightarrow> (content, st));
           c2 = (case Some g of
                        Some r \<Rightarrow> select_range (or_empty (groups r 1)) (or_empty (groups r 2)) c1
                      | None \<Rightarrow> c1)
       in rec c2 (record_path (includePath E fp p) st1))"
    by (rule includeCallback_unfold [OF ne r(1) g(1) _ strip_meta_region_range [OF assms(1-5)]
          assms(6,7)]) simp
  then show ?thesis
    using g(2,3) by (simp add: or_empty_def r(2) select_region_eq split: option.splits)
qed

lemma include_region_only:
  assumes "CHR ''#'' \<notin> set p" "name \<noteq> []" "list_all region_char name"
      "existsSync E (includePath E fp p)" "readFileSync E (includePath E fp p) = Some content"
  shows "includeCallback rec E fp m (p @ ''#'' @ name) st =
           (case findRegion (split_lines content) name of
              Some (re, s, e) \<Rightarrow>
                rec (js_join [NL] (drop s (take e (split_lines content))))
                  (record_path (includePath E fp p) st)
            | None \<Rightarrow>
                rec content
                  (record_path (includePath E fp p)
                     (region_warning (''#'' @ name) (includePath E fp p) st)))"
proof -
  let ?m1 = "p @ ''#'' @ name"
  from js_exec_regionRE [OF assms(1-3), of "[]"]
  obtain r where r: "js_exec regionRE ?m1 = Some r" "whole r = ''#'' @ name" by auto
  have n: "js_exec rangeRE ?m1 = None"
    using region_token_no_range [OF assms(3)] by (intro js_exec_rangeRE_None) blast
  have ne: "?m1 \<noteq> []" by simp
  have "includeCallback rec E fp m ?m1 st =
      (let (c1, st1) = (case Some r of
                     Some r \<Rightarrow> select_region (whole r) (includePath E fp p) content st
                   | None \<Rightarrow> (content, st));
           c2 = (case None :: rmatch option of
                        Some r \<Rightarrow> select_range (or_empty (groups r 1)) (or_empty (groups r 2)) c1
                      | None \<Rightarrow> c1)
       in rec c2 (record_path (includePath E fp p) st1))"
    by (rule includeCallback_unfold [OF ne r(1) n _ strip_meta_region [OF assms(1-3)] assms(4,5)])
       simp
  then show ?thesis
    by (simp add: r(2) select_region_eq split: option.splits)
qed

section \<open>What a pass does to the state\<close>

text \<open>
  One state grows into another when the list of included paths is extended by paths
  that exist, and the list of warnings is extended.
\<close>

definition grows :: "env \<Rightarrow> pstate \<Rightarrow> pstate \<Rightarrow> bool" where
  "grows E st st' =
     ((\<exists>added. include_list st' = include_list st @ added \<and> list_all (existsSync E) added) \<and>
      (\<exists>ws. log_warn st' = log_warn st @ ws))"

lemma grows_refl: "grows E st st"
  by (simp add: grows_def)

lemma grows_trans: "grows E a b \<Longrightarrow> grows E b c \<Longrightarrow> grows E a c"
  unfolding grows_def by (metis append.assoc list_all_append)

lemma grows_warn: "grows E st (warn msg st)"
  by (simp add: grows_def warn_def)

lemma grows_record_path: "existsSync E path \<Longrightarrow> grows E st (record_path path st)"
  by (simp add: grows_def record_path_def)

lemma grows_include_mono: "grows E st st' \<Longrightarrow> set (include_list st) \<subseteq> set (include_list st')"
  by (auto simp: grows_def)

lemma grows_log_mono: "grows E st st' \<Longrightarrow> set (log_warn st) \<subseteq> set (log_warn st')"
  by (auto simp: grows_def)

text \<open>A replacer is monotone when every call of it makes the state grow.\<close>

definition monotone_cb ::
  "env \<Rightarrow> (string \<Rightarrow> (nat \<Rightarrow> string option) \<Rightarrow> pstate \<Rightarrow> string result) \<Rightarrow> bool" where
  "monotone_cb E cb = (\<forall>m g st rep st'. cb m g st = Some (rep, st') \<longrightarrow> grows E st st')"

lemma splice_grows:
  assumes "monotone_cb E cb"
  shows "splice cb s p rs st = Some (out, st') \<Longrightarrow> grows E st st'"
proof (induction rs arbitrary: p st out)
  case Nil
  then show ?case by (simp add: grows_refl)
next
  case (Cons r rs)
  from Cons.prems obtain rep st1 out1 where
      a: "cb (whole r) (groups r) st = Some (rep, st1)" and
      b: "splice cb s (index r + length (whole r)) rs st1 = Some (out1, st')"
    by (auto split: option.splits)
  from a assms have "grows E st st1" unfolding monotone_cb_def by blast
  moreover from Cons.IH [OF b] have "grows E st1 st'" .
  ultimately show ?case by (rule grows_trans)
qed

lemma splice_at:
  assumes "monotone_cb E cb"
  shows "splice cb s p rs st = Some (out, st') \<Longrightarrow> r \<in> set rs \<Longrightarrow>
         \<exists>st1 st2 rep a b. grows E st st1 \<and> cb (whole r) (groups r) st1 = Some (rep, st2) \<and>
           grows E st2 st' \<and> out = a @ rep @ b"
proof (induction rs arbitrary: p st out)
  case Nil
  then show ?case by simp
next
  case (Cons x rs)
  from Cons.prems(1) obtain rep st1 out1 where
      a: "cb (whole x) (groups x) st = Some (rep, st1)" and
      b: "splice cb s (index x + length (whole x)) rs st1 = Some (out1, st')" and
      c: "out = take (index x - p) (drop p s) @ rep @ out1"
    by (auto split: option.splits)
  from a assms have g1: "grows E st st1" unfolding monotone_cb_def by blast
  show ?case
  proof (cases "r = x")
    case True
    have "grows E st1 st'" using splice_grows [OF assms b] .
    with a c True show ?thesis using grows_refl by blast
  next
    case False
    with Cons.prems(2) have "r \<in> set rs" by simp
    from Cons.IH [OF b this] obtain st2 st3 rep' a' b' where
        d: "grows E st1 st2" "cb (whole r) (groups r) st2 = Some (rep', st3)"
           "grows E st3 st'" "out1 = a' @ rep' @ b'"
      by blast
    have "out = (take (index x - p) (drop p s) @ rep @ a') @ rep' @ b'"
      using c d(4) by simp
    moreover have "grows E st st2" using g1 d(1) by (rule grows_trans)
    ultimately show ?thesis using d(2,3) by blast
  qed
qed

lemma includeCallback_empty: "includeCallback rec E fp m [] st = Some (m, st)"
  by (simp add: includeCallback_def)

lemma includeCallback_missing:
  assumes "m1 \<noteq> []" "\<not> existsSync E (includePath E fp (strip_meta m1))"
  shows "includeCallback rec E fp m m1 st =
           Some (m, warn (''[remark-include] Include file not found: '' @ strip_meta m1) st)"
  using assms by (simp add: includeCallback_def Let_def)

lemma includeCallback_cases:
  assumes "includeCallback rec E fp m m1 st = Some (out, st')"
  obtains (kept) "out = m" "grows E st st'"
    | (expanded) body st1 where "existsSync E (includePath E fp (strip_meta m1))"
        "include_list st1 = include_list st" "log_warn st1 = log_warn st"
        "rec body (record_path (includePath E fp (strip_meta m1)) st1) = Some (out, st')"
proof (cases "m1 = []")
  case True
  with assms have "out = m" "st' = st" by (simp_all add: includeCallback_def)
  then show ?thesis using kept grows_refl by simp
next
  case ne: False
  let ?path = "includePath E fp (strip_meta m1)"
  let ?msg = "''[remark-include] Include file not found: '' @ strip_meta m1"
  show ?thesis
  proof (cases "existsSync E ?path")
    case False
    with assms ne have "out = m" "st' = warn ?msg st"
      by (simp_all add: includeCallback_missing)
    then show ?thesis using kept grows_warn by simp
  next
    case ex: True
    show ?thesis
    proof (cases "readFileSync E ?path")
      case None
      with assms ne ex have "out = m" "st' = warn ?msg st"
        by (simp_all add: includeCallback_def Let_def)
      then show ?thesis using kept grows_warn by simp
    next
      case (Some content)
      define rg where "rg = js_exec regionRE m1"
      define rn where "rn = js_exec rangeRE m1"
      define cs1 where "cs1 = (case rg of
          Some r \<Rightarrow> select_region (whole r) ?path content st | None \<Rightarrow> (content, st))"
      define c2 where "c2 = (case rn of
          Some r \<Rightarrow> select_range (or_empty (groups r 1)) (or_empty (groups r 2)) (fst cs1)
        | None \<Rightarrow> fst cs1)"
      define c3 where "c3 = (if \<not> (rg \<noteq> None \<or> rn \<noteq> None) \<and> path_extname E ?path = ''.md'' \<and>
           stripFrontmatter E then matter_content E c2 else Some c2)"
      have st1: "include_list (snd cs1) = include_list st" "log_warn (snd cs1) = log_warn st"
        by (auto simp: cs1_def select_region_def Let_def split: option.splits)
      have eq: "includeCallback rec E fp m m1 st =
          (case c3 of None \<Rightarrow> Some (m, warn ?msg (snd cs1))
           | Some content3 \<Rightarrow> rec content3 (record_path ?path (snd cs1)))"
        using ne ex Some
        unfolding includeCallback_def Let_def rg_def rn_def cs1_def c2_def c3_def
            record_path_def split_beta
        by (simp cong: option.case_cong if_cong)
      show ?thesis
      proof (cases c3)
        case None
        with eq assms have "out = m" "st' = warn ?msg (snd cs1)" by simp_all
        moreover have "grows E st (warn ?msg (snd cs1))"
          using st1 by (simp add: grows_def warn_def)
        ultimately show ?thesis using kept by simp
      next
        case (Some content3)
        with eq assms have "rec content3 (record_path ?path (snd cs1)) = Some (out, st')"
          by simp
        then show ?thesis using expanded [OF ex st1] by blast
      qed
    qed
  qed
qed

lemma includeCallback_grows:
  assumes "\<And>text x out y. rec text x = Some (out, y) \<Longrightarrow> grows E x y"
      "includeCallback rec E fp m m1 st = Some (out, st')"
  shows "grows E st st'"
  using assms(2)
proof (cases rule: includeCallback_cases)
  case kept
  then show ?thesis by simp
next
  case (expanded body st1)
  let ?path = "includePath E fp (strip_meta m1)"
  have "grows E st (record_path ?path st1)"
    using expanded(1-3) by (simp add: grows_def record_path_def)
  moreover have "grows E (record_path ?path st1) st'"
    using assms(1) expanded(4) by blast
  ultimately show ?thesis by (rule grows_trans)
qed

lemma processIncludes_grows:
  "processIncludes n E fp content st = Some (out, st') \<Longrightarrow> grows E st st'"
proof (induction n arbitrary: content st out st')
  case 0
  then show ?case by simp
next
  case (Suc n)
  have "monotone_cb E (\<lambda>m g. includeCallback (processIncludes n E fp) E fp m (or_empty (g 1)))"
    unfolding monotone_cb_def using includeCallback_grows Suc.IH by blast
  then show ?case
    using Suc.prems splice_grows by (simp add: js_replace_def)
qed

section \<open>Directives whose target is missing\<close>

lemma search_whole:
  "search re pre rest = Some r \<Longrightarrow>
   \<exists>k\<le>length rest. index r = length pre + k \<and> whole r = take (length (whole r)) (drop k rest)"
proof (induction rest arbitrary: pre)
  case Nil
  then show ?case by (auto split: list.splits)
next
  case (Cons c cs)
  show ?case
  proof (cases "ms re (pre, c # cs, Map.empty)")
    case Nil
    with Cons.prems have "search re (c # pre) cs = Some r" by simp
    from Cons.IH [OF this] obtain k where
      "k \<le> length cs" "index r = length (c # pre) + k" "whole r = take (length (whole r)) (drop k cs)"
      by blast
    then show ?thesis by (intro exI [of _ "Suc k"]) simp
  next
    case (Cons x xs)
    obtain pre' rest' caps where x: "x = (pre', rest', caps)" by (cases x)
    with Cons Cons.prems have "index r = length pre"
        "whole r = take (length (c # cs) - length rest') (c # cs)"
      by auto
    then show ?thesis by (intro exI [of _ 0]) (simp add: min_def)
  qed
qed

declare match_all.simps [simp del]

lemma match_all_whole:
  "r \<in> set (match_all re pre rest) \<Longrightarrow>
   \<exists>k\<le>length rest. index r = length pre + k \<and> whole r = take (length (whole r)) (drop k rest)"
proof (induction re pre rest rule: match_all.induct)
  case (1 re pre rest)
  show ?case
  proof (cases "search re pre rest")
    case None
    with "1.prems" show ?thesis by (subst (asm) match_all.simps) simp
  next
    case (Some x)
    define adv where "adv = index x - length pre + max 1 (length (whole x))"
    have ma: "match_all re pre rest =
        x # (if length rest < adv then [] else match_all re (rev (take adv rest) @ pre) (drop adv rest))"
      using Some by (subst match_all.simps) (simp add: adv_def Let_def)
    show ?thesis
    proof (cases "r = x")
      case True
      then show ?thesis using search_whole [OF Some] by simp
    next
      case False
      with "1.prems" [unfolded ma] have ge: "\<not> length rest < adv"
          and mem: "r \<in> set (match_all re (rev (take adv rest) @ pre) (drop adv rest))"
        by (auto split: if_splits)
      from "1.IH" [OF Some adv_def ge mem] obtain k where k: "k \<le> length (drop adv rest)"
          "index r = length (rev (take adv rest) @ pre) + k"
          "whole r = take (length (whole r)) (drop k (drop adv rest))"
        by blast
      from ge have le: "adv \<le> length rest" by simp
      then have "length (rev (take adv rest) @ pre) + k = length pre + (adv + k)"
        by (simp add: min_def)
      moreover have "adv + k \<le> length rest" using k(1) le by simp
      moreover have "whole r = take (length (whole r)) (drop (adv + k) rest)"
        by (metis drop_drop add.commute k(3))
      ultimately show ?thesis using k(2) by (intro exI [of _ "adv + k"]) (simp only: simp_thms)
    qed
  qed
qed

lemma js_matchAll_whole:
  "r \<in> set (js_matchAll re s) \<Longrightarrow> whole r = take (length (whole r)) (drop (index r) s)"
  using match_all_whole [of r re "[]" s] by (auto simp: js_matchAll_def)

lemma snippetCallback_empty: "snippetCallback E fp m [] st = Some (m, st)"
  by (simp add: snippetCallback_def)

lemma snippetCallback_missing:
  assumes "rawPath \<noteq> []" "\<not> existsSync E (snippetPath E fp rawPath)"
  shows "snippetCallback E fp m rawPath st =
           Some (m, warn (''[remark-include] Snippet file not found: '' @ rawPath) st)"
  using assms by (simp add: snippetCallback_def Let_def)

lemma snippetCallback_found:
  assumes "rawPath \<noteq> []" "existsSync E (snippetPath E fp rawPath)"
      "readFileSync E (snippetPath E fp rawPath) = Some raw"
  shows "snippetCallback E fp m rawPath st =
           Some (''```'' @ snippet_info (snippet_token rawPath) @ [NL] @
                 snippet_content (region (snippet_token rawPath)) raw @ [NL] @ ''```'',
                 record_path (snippetPath E fp rawPath) st)"
  using assms by (simp add: snippetCallback_def Let_def record_path_def)

lemma snippetCallback_grows:
  assumes "snippetCallback E fp m rawPath st = Some (out, st')"
  shows "grows E st st'"
proof (cases "rawPath = []")
  case True
  with assms show ?thesis by (simp add: snippetCallback_empty grows_refl)
next
  case ne: False
  show ?thesis
  proof (cases "existsSync E (snippetPath E fp rawPath)")
    case False
    with assms ne show ?thesis by (auto simp: snippetCallback_missing grows_warn)
  next
    case True
    show ?thesis
    proof (cases "readFileSync E (snippetPath E fp rawPath)")
      case None
      with assms ne True show ?thesis
        by (auto simp: snippetCallback_def Let_def grows_warn)
    next
      case (Some raw)
      with assms ne True show ?thesis
        by (auto simp: snippetCallback_found grows_record_path)
    qed
  qed
qed

lemma snippet_monotone: "monotone_cb E (\<lambda>m g. snippetCallback E fp m (or_empty (g 1)))"
  unfolding monotone_cb_def using snippetCallback_grows by blast

lemma include_monotone:
  "monotone_cb E (\<lambda>m g. includeCallback (processIncludes n E fp) E fp m (or_empty (g 1)))"
  unfolding monotone_cb_def using includeCallback_grows processIncludes_grows by blast

lemma grows_not_added:
  assumes "grows E st st'" "\<not> existsSync E path"
  shows "\<exists>added. include_list st' = include_list st @ added \<and> path \<notin> set added"
  using assms unfolding grows_def list_all_iff by blast

text \<open>
  C1: a directive with a payload whose resolved target does not exist stays in the
  output as it was in the input, the warning that names its path is in the log, and
  the path is not among those the pass appends to the dependency list. The first half
  is processIncludes, the second processSnippets; \<open>r\<close> is a directive occurrence,
  \<open>whole r\<close> its text at \<open>index r\<close> of the input.
\<close>

theorem missing_file_keeps_directive:
  "(processIncludes n E fp content st = Some (out, st') \<and>
    r \<in> set (js_matchAll includesRE content) \<and> or_empty (groups r 1) \<noteq> [] \<and>
    \<not> existsSync E (includePath E fp (strip_meta (or_empty (groups r 1))))
    \<longrightarrow> whole r = take (length (whole r)) (drop (index r) content) \<and>
        (\<exists>a b. out = a @ whole r @ b) \<and>
        (''[remark-include] Include file not found: '' @ strip_meta (or_empty (groups r 1)))
          \<in> set (log_warn st') \<and>
        (\<exists>added. include_list st' = include_list st @ added \<and>
           includePath E fp (strip_meta (or_empty (groups r 1))) \<notin> set added)) \<and>
   (processSnippets E fp content st = Some (out, st') \<and>
    r \<in> set (js_matchAll snippetRE content) \<and> or_empty (groups r 1) \<noteq> [] \<and>
    \<not> existsSync E (snippetPath E fp (or_empty (groups r 1)))
    \<longrightarrow> whole r = take (length (whole r)) (drop (index r) content) \<and>
        (\<exists>a b. out = a @ whole r @ b) \<and>
        (''[remark-include] Snippet file not found: '' @ or_empty (groups r 1))
          \<in> set (log_warn st') \<and>
        (\<exists>added. include_list st' = include_list st @ added \<and>
           snippetPath E fp (or_empty (groups r 1)) \<notin> set added))"
proof (intro conjI impI; elim conjE)
  let ?m1 = "or_empty (groups r 1)"
  assume run: "processIncludes n E fp content st = Some (out, st')"
     and r: "r \<in> set (js_matchAll includesRE content)"
     and ne: "?m1 \<noteq> []"
     and missing: "\<not> existsSync E (includePath E fp (strip_meta ?m1))"
  let ?msg = "''[remark-include] Include file not found: '' @ strip_meta ?m1"
  from run obtain k where n: "n = Suc k" by (cases n) auto
  let ?cb = "\<lambda>m g. includeCallback (processIncludes k E fp) E fp m (or_empty (g 1))"
  from run n have sp: "splice ?cb content 0 (js_matchAll includesRE content) st = Some (out, st')"
    by (simp add: js_replace_def)
  from splice_at [OF include_monotone sp r] obtain st1 st2 rep a b where
      s: "grows E st st1" "?cb (whole r) (groups r) st1 = Some (rep, st2)"
         "grows E st2 st'" "out = a @ rep @ b"
    by blast
  from s(2) have kept: "rep = whole r" "st2 = warn ?msg st1"
    using includeCallback_missing [OF ne missing] by simp_all
  show "whole r = take (length (whole r)) (drop (index r) content)"
    using r by (rule js_matchAll_whole)
  show "\<exists>a b. out = a @ whole r @ b" using s(4) kept(1) by blast
  have "?msg \<in> set (log_warn st2)" using kept(2) by (simp add: warn_def)
  then show "?msg \<in> set (log_warn st')" using grows_log_mono [OF s(3)] by blast
  show "\<exists>added. include_list st' = include_list st @ added \<and>
      includePath E fp (strip_meta ?m1) \<notin> set added"
    using grows_not_added [OF processIncludes_grows [OF run] missing] .
next
  let ?m1 = "or_empty (groups r 1)"
  assume run: "processSnippets E fp content st = Some (out, st')"
     and r: "r \<in> set (js_matchAll snippetRE content)"
     and ne: "?m1 \<noteq> []"
     and missing: "\<not> existsSync E (snippetPath E fp ?m1)"
  let ?msg = "''[remark-include] Snippet file not found: '' @ ?m1"
  let ?cb = "\<lambda>m g. snippetCallback E fp m (or_empty (g 1))"
  from run have sp: "splice ?cb content 0 (js_matchAll snippetRE content) st = Some (out, st')"
    by (simp add: processSnippets_def js_replace_def)
  from splice_at [OF snippet_monotone sp r] obtain st1 st2 rep a b where
      s: "grows E st st1" "?cb (whole r) (groups r) st1 = Some (rep, st2)"
         "grows E st2 st'" "out = a @ rep @ b"
    by blast
  from s(2) have kept: "rep = whole r" "st2 = warn ?msg st1"
    using snippetCallback_missing [OF ne missing] by simp_all
  show "whole r = take (length (whole r)) (drop (index r) content)"
    using r by (rule js_matchAll_whole)
  show "\<exists>a b. out = a @ whole r @ b" using s(4) kept(1) by blast
  have "?msg \<in> set (log_warn st2)" using kept(2) by (simp add: warn_def)
  then show "?msg \<in> set (log_warn st')" using grows_log_mono [OF s(3)] by blast
  show "\<exists>added. include_list st' = include_list st @ added \<and>
      snippetPath E fp ?m1 \<notin> set added"
    using grows_not_added [OF splice_grows [OF snippet_monotone sp] missing] .
qed

end
